theory Spec2Isabelle
  imports Main "HOL-Library.Word" "HOL-Library.Char_ord"
begin

unbundle bit_operations_syntax

section \<open>Constants and configuration types (fastnvmetrics.hpp)\<close>

type_synonym u8 = "8 word"
type_synonym u16 = "16 word"
type_synonym u32 = "32 word"
type_synonym u64 = "64 word"

text \<open>
  A \<open>float\<close> is carried as its 32-bit pattern and a \<open>double\<close> as its 64-bit
  pattern, which is what the packed structs store and what the writer emits. The
  arithmetic on these patterns is not fixed here: the functions that compute with
  floats take the operations as a parameter (\<open>float_ops\<close> below).
\<close>

type_synonym f32 = "32 word"
type_synonym f64 = "64 word"

definition MAGIC :: u32 where "MAGIC = 0x4E564D54"
definition VERSION :: u32 where "VERSION = 1"

definition MAX_CPU_CORES :: int where "MAX_CPU_CORES = 16"
definition MAX_POWER_RAILS :: int where "MAX_POWER_RAILS = 8"
definition MAX_THERMAL_ZONES :: int where "MAX_THERMAL_ZONES = 16"

record PowerRailConfig =
  label :: string
  voltage_path :: string
  current_path :: string

record ThermalZoneConfig =
  name :: string
  temp_path :: string

record BoardConfig =
  board_name :: string
  num_cpu_cores :: int
  gpu_load_path :: string
  emc_actmon_path :: string
  emc_clk_rate_path :: string
  power_rails :: "PowerRailConfig list"
  thermal_zones :: "ThermalZoneConfig list"

record EngineConfig =
  fast_hz :: u32
  medium_hz :: u32
  slow_hz :: u32

definition default_EngineConfig :: EngineConfig where
  "default_EngineConfig = \<lparr>fast_hz = 1000, medium_hz = 100, slow_hz = 10\<rparr>"

section \<open>Platform operations\<close>

text \<open>
  What the C library and the FPU contribute: \<open>atoi\<close>, the conversions to
  \<open>float\<close>, the float arithmetic and comparison, and the subtraction of two
  doubles. They are parameters of every function that calls them, so a theorem
  below holds for whatever the target's arithmetic is (IEEE binary32/binary64
  in particular).
\<close>

record platform =
  atoi :: "string \<Rightarrow> int"
  f_of_u64 :: "u64 \<Rightarrow> f32"
  f_of_u32 :: "u32 \<Rightarrow> f32"
  f_of_int :: "int \<Rightarrow> f32"
  f_mul :: "f32 \<Rightarrow> f32 \<Rightarrow> f32"
  f_div :: "f32 \<Rightarrow> f32 \<Rightarrow> f32"
  f_add :: "f32 \<Rightarrow> f32 \<Rightarrow> f32"
  f_less :: "f32 \<Rightarrow> f32 \<Rightarrow> bool"
  d_sub :: "f64 \<Rightarrow> f64 \<Rightarrow> f64"

text \<open>The float literals of the source, as binary32 patterns.\<close>

definition F_0 :: f32 where "F_0 = 0"                  \<comment> \<open>\<open>0.0f\<close>\<close>
definition F_100 :: f32 where "F_100 = 0x42C80000"     \<comment> \<open>\<open>100.0f\<close>\<close>
definition F_1000 :: f32 where "F_1000 = 0x447A0000"   \<comment> \<open>\<open>1000.0f\<close>\<close>
definition F_neg1 :: f32 where "F_neg1 = 0xBF800000"   \<comment> \<open>\<open>-1.0f\<close>\<close>

text \<open>\<open>std::clamp(v, lo, hi)\<close> is \<open>(v < lo) ? lo : (hi < v) ? hi : v\<close>.\<close>

definition clamp_f :: "platform \<Rightarrow> f32 \<Rightarrow> f32 \<Rightarrow> f32 \<Rightarrow> f32" where
  "clamp_f pl v lo hi = (if f_less pl v lo then lo else if f_less pl hi v then hi else v)"

definition clamp_i :: "int \<Rightarrow> int \<Rightarrow> int \<Rightarrow> int" where
  "clamp_i v lo hi = (if v < lo then lo else if hi < v then hi else v)"

section \<open>Helpers (engine.cpp, lines 17-57)\<close>

text \<open>
  A \<open>const char *\<close> into a NUL-terminated buffer is the list of the characters
  from the pointer up to the terminator; \<open>*p\<close> is the head, or NUL at the end.
\<close>

definition NUL :: char where "NUL = CHR 0x00"
definition NL :: char where "NL = CHR 0x0A"
definition TAB :: char where "TAB = CHR 0x09"

definition deref :: "string \<Rightarrow> char" where
  "deref p = (case p of [] \<Rightarrow> NUL | c # _ \<Rightarrow> c)"

text \<open>
  \<open>sysfs_read(fd, buf, bufsize)\<close>: \<open>content\<close> is what the file behind the
  descriptor delivers from offset 0 (empty when \<open>lseek\<close> or \<open>read\<close> fails or
  reads nothing). At most \<open>bufsize - 1\<close> bytes are taken and NUL is stored after
  them; the result is the C string then in \<open>buf\<close>, or \<open>None\<close> for the return
  value 0.
\<close>

definition sysfs_read :: "int \<Rightarrow> nat \<Rightarrow> string \<Rightarrow> string option" where
  "sysfs_read fd bufsize content =
     (if fd < 0 then None
      else let got = take (bufsize - 1) content in
        if got = [] then None else Some (takeWhile (\<lambda>c. c \<noteq> NUL) got))"

definition sysfs_read_int :: "platform \<Rightarrow> int \<Rightarrow> string \<Rightarrow> int" where
  "sysfs_read_int pl fd content =
     (case sysfs_read fd 32 content of None \<Rightarrow> 0 | Some buf \<Rightarrow> atoi pl buf)"

fun skip_past :: "string \<Rightarrow> char \<Rightarrow> string option" where
  "skip_past [] c = None"
| "skip_past (x # p) c = (if x \<noteq> c then skip_past p c else Some p)"

definition is_digit :: "char \<Rightarrow> bool" where
  "is_digit c = (CHR ''0'' \<le> c \<and> c \<le> CHR ''9'')"

definition digit_val :: "char \<Rightarrow> u64" where
  "digit_val c = of_nat (of_char c - of_char CHR ''0'')"

fun parse_digits :: "u64 \<Rightarrow> string \<Rightarrow> u64 \<times> string" where
  "parse_digits v [] = (v, [])"
| "parse_digits v (x # p) =
     (if is_digit x then parse_digits (v * 10 + digit_val x) p else (v, x # p))"

definition skip_blanks :: "string \<Rightarrow> string" where
  "skip_blanks p = dropWhile (\<lambda>c. c = CHR '' '' \<or> c = TAB) p"

definition parse_u64 :: "string \<Rightarrow> u64 \<times> string" where
  "parse_u64 p = (case parse_digits 0 p of (v, q) \<Rightarrow> (v, skip_blanks q))"

section \<open>Sysfs readers (engine.cpp, lines 142-306)\<close>

record CpuJiffies =
  total :: u64
  idle :: u64

text \<open>
  The field loop of \<open>read_cpu\<close>:
  \<open>for (int i = 0; i < 10 && *q && *q != '\n'; ++i) vals[i] = parse_u64(q);\<close>
\<close>

function parse_vals :: "nat \<Rightarrow> u64 list \<Rightarrow> string \<Rightarrow> u64 list \<times> string" where
  "parse_vals i vals q =
     (if i < 10 \<and> deref q \<noteq> NUL \<and> deref q \<noteq> NL
      then (case parse_u64 q of (v, q') \<Rightarrow> parse_vals (i + 1) (vals[i := v]) q')
      else (vals, q))"
  by pat_completeness auto
termination
  by (relation "measure (\<lambda>(i, vals, q). 10 - i)") auto

declare parse_vals.simps [simp del]

text \<open>
  One \<open>cpuN\<close> line, from the pointer \<open>p\<close> at its start: the fields, then
  \<open>total\<close> (the first 8 fields) and \<open>idle_val\<close> (\<open>vals[3] + vals[4]\<close>), and the
  pointer \<open>q\<close> left behind the last field read.
\<close>

definition cpu_line :: "string \<Rightarrow> CpuJiffies \<times> string" where
  "cpu_line p =
     (let q0 = dropWhile is_digit (drop 3 p);
          q1 = (if deref q0 = CHR '' '' then tl q0 else q0)
      in case parse_vals 0 (replicate 10 0) q1 of
           (vals, q) \<Rightarrow> (\<lparr>total = sum_list (take 8 vals), idle = vals ! 3 + vals ! 4\<rparr>, q))"

text \<open>The utilisation of one core from the new and the previous jiffies.\<close>

definition cpu_util_of :: "platform \<Rightarrow> CpuJiffies \<Rightarrow> CpuJiffies \<Rightarrow> f32" where
  "cpu_util_of pl new prev =
     (let d_total = total new - total prev;
          d_idle = idle new - idle prev;
          util = (if d_total > 0
                  then f_div pl (f_mul pl F_100 (f_of_u64 pl (d_total - d_idle))) (f_of_u64 pl d_total)
                  else F_0)
      in clamp_f pl util F_0 F_100)"

record cpu_state =
  per_core :: "f32 list"
  prev_cpu_st :: "CpuJiffies list"
  sum_util :: f32
  cores_parsed :: nat

text \<open>
  The per-core loop:
  \<open>for (int c = 0; c < board_.num_cpu_cores && p; ++c)\<close>, with the \<open>break\<close> on a
  line that does not start with \<open>cpu\<close>.
\<close>

function cpu_loop :: "platform \<Rightarrow> int \<Rightarrow> nat \<Rightarrow> string option \<Rightarrow> cpu_state \<Rightarrow> cpu_state" where
  "cpu_loop pl n c p st =
     (if int c < n \<and> p \<noteq> None
      then (let l = the p in
        if take 3 l \<noteq> ''cpu'' then st
        else (case cpu_line l of (new, q) \<Rightarrow>
          let u = cpu_util_of pl new (prev_cpu_st st ! c)
          in cpu_loop pl n (c + 1) (skip_past q NL)
               \<lparr>per_core = (per_core st)[c := u],
                prev_cpu_st = (prev_cpu_st st)[c := new],
                sum_util = f_add pl (sum_util st) u,
                cores_parsed = cores_parsed st + 1\<rparr>))
      else st)"
  by pat_completeness auto
termination
  by (relation "measure (\<lambda>(pl, n, c, p, st). nat (n - int c))") auto

declare cpu_loop.simps [simp del]

definition zero_from :: "nat \<Rightarrow> nat \<Rightarrow> f32 list \<Rightarrow> f32 list" where
  "zero_from lo hi xs = fold (\<lambda>c ys. ys[c := F_0]) [lo..<hi] xs"

text \<open>
  \<open>read_cpu(per_core, aggregate)\<close>. \<open>content\<close> is what \<open>/proc/stat\<close> delivers;
  \<open>pc\<close> is the caller's \<open>per_core\<close> array and \<open>prev\<close> the member
  \<open>prev_cpu_\<close>. The result is the array, the aggregate and the updated member.
  The block that parses the aggregate \<open>cpu\<close> line (lines 161-180) only computes
  two locals that are discarded and is left out.
\<close>

definition read_cpu ::
  "platform \<Rightarrow> int \<Rightarrow> int \<Rightarrow> string \<Rightarrow> f32 list \<Rightarrow> CpuJiffies list
     \<Rightarrow> f32 list \<times> f32 \<times> CpuJiffies list" where
  "read_cpu pl fd n content pc prev =
     (case sysfs_read fd 4096 content of
        None \<Rightarrow> (zero_from 0 (nat n) pc, F_0, prev)
      | Some buf \<Rightarrow>
          let st = cpu_loop pl n 0 (skip_past buf NL)
                     \<lparr>per_core = pc, prev_cpu_st = prev, sum_util = F_0, cores_parsed = 0\<rparr>;
              k = cores_parsed st
          in (zero_from k (nat MAX_CPU_CORES) (per_core st),
              (if k > 0 then f_div pl (sum_util st) (f_of_int pl (int k)) else F_0),
              prev_cpu_st st))"

definition read_gpu_load :: "platform \<Rightarrow> int \<Rightarrow> string \<Rightarrow> u16" where
  "read_gpu_load pl fd content = word_of_int (clamp_i (sysfs_read_int pl fd content) 0 1000)"

lemma skip_past_length: "skip_past p c = Some r \<Longrightarrow> length r < length p"
  by (induction p) (auto split: if_splits)

lemma parse_digits_length: "length (snd (parse_digits v p)) \<le> length p"
  by (induction p arbitrary: v) (auto intro: le_SucI)

lemma parse_u64_length: "length (snd (parse_u64 p)) \<le> length p"
proof -
  have "length (skip_blanks (snd (parse_digits 0 p))) \<le> length (snd (parse_digits 0 p))"
    unfolding skip_blanks_def by (rule length_dropWhile_le)
  also have "\<dots> \<le> length p" by (rule parse_digits_length)
  finally show ?thesis by (cases "parse_digits 0 p") (simp add: parse_u64_def)
qed

lemma ram_line_shorter:
  assumes "(v, p') = parse_u64 (dropWhile P (drop n p))" and "skip_past p' c = Some nl"
  shows "length nl < length p"
proof -
  have p': "p' = snd (parse_u64 (dropWhile P (drop n p)))"
    using assms(1) by (metis snd_conv)
  have "length nl < length p'" using assms(2) by (rule skip_past_length)
  also have "\<dots> \<le> length (dropWhile P (drop n p))"
    unfolding p' by (rule parse_u64_length)
  also have "\<dots> \<le> length (drop n p)" by (rule length_dropWhile_le)
  also have "\<dots> \<le> length p" by simp
  finally show ?thesis .
qed

text \<open>
  The line loop of \<open>read_ram\<close>: \<open>while (*p) { ... }\<close>, with the running values
  of \<open>mem_total\<close> and \<open>mem_available\<close>.
\<close>

function ram_loop :: "string \<Rightarrow> u64 \<Rightarrow> u64 \<Rightarrow> u64 \<times> u64" where
  "ram_loop p mem_total mem_available =
     (if deref p = NUL then (mem_total, mem_available)
      else if take 9 p = ''MemTotal:''
      then (case parse_u64 (dropWhile (\<lambda>c. c = CHR '' '') (drop 9 p)) of (v, p') \<Rightarrow>
              (case skip_past p' NL of
                 None \<Rightarrow> (v, mem_available)
               | Some nl \<Rightarrow> ram_loop nl v mem_available))
      else if take 13 p = ''MemAvailable:''
      then (case parse_u64 (dropWhile (\<lambda>c. c = CHR '' '') (drop 13 p)) of (v, p') \<Rightarrow>
              (mem_total, v))
      else (case skip_past p NL of
              None \<Rightarrow> (mem_total, mem_available)
            | Some nl \<Rightarrow> ram_loop nl mem_total mem_available))"
  by pat_completeness auto
termination
proof (relation "measure (\<lambda>(p, mt, ma). length p)", goal_cases)
  case 1
  show ?case by simp
next
  case 2
  then show ?case by (auto intro: ram_line_shorter)
next
  case 3
  then show ?case by (simp add: skip_past_length)
qed

declare ram_loop.simps [simp del]

text \<open>\<open>read_ram(used_kb, available_kb)\<close>: the pair \<open>(used_kb, available_kb)\<close>.\<close>

definition read_ram :: "int \<Rightarrow> string \<Rightarrow> u64 \<times> u64" where
  "read_ram fd content =
     (case sysfs_read fd 1024 content of
        None \<Rightarrow> (0, 0)
      | Some buf \<Rightarrow>
          (case ram_loop buf 0 0 of (mem_total, mem_available) \<Rightarrow>
             ((if mem_total \<ge> mem_available then mem_total - mem_available else 0),
              mem_available)))"

definition read_emc :: "platform \<Rightarrow> int \<Rightarrow> string \<Rightarrow> f32" where
  "read_emc pl fd content =
     (if fd < 0 then F_neg1
      else case sysfs_read fd 64 content of
             None \<Rightarrow> F_neg1
           | Some buf \<Rightarrow> clamp_f pl (f_of_int pl (atoi pl buf)) F_0 F_100)"

text \<open>
  \<open>read_power(voltage, current, power)\<close>; \<open>rd fd\<close> is what the file behind
  descriptor \<open>fd\<close> delivers at this call. The three arrays start as the
  zero-initialised members of the sample.
\<close>

record power_arrays =
  voltage :: "u32 list"
  current :: "u32 list"
  power :: "f32 list"

definition read_power_rail ::
  "platform \<Rightarrow> int list \<Rightarrow> int list \<Rightarrow> (int \<Rightarrow> string) \<Rightarrow> nat \<Rightarrow> power_arrays \<Rightarrow> power_arrays" where
  "read_power_rail pl fdv fdc rd i a =
     (let v = (word_of_int (sysfs_read_int pl (fdv ! i) (rd (fdv ! i))) :: u32);
          c = (word_of_int (sysfs_read_int pl (fdc ! i) (rd (fdc ! i))) :: u32)
      in \<lparr>voltage = (voltage a)[i := v],
          current = (current a)[i := c],
          power = (power a)[i := f_div pl (f_mul pl (f_of_u32 pl v) (f_of_u32 pl c)) F_1000]\<rparr>)"

definition read_power ::
  "platform \<Rightarrow> int list \<Rightarrow> int list \<Rightarrow> (int \<Rightarrow> string) \<Rightarrow> nat \<Rightarrow> power_arrays \<Rightarrow> power_arrays" where
  "read_power pl fdv fdc rd nrails a =
     fold (\<lambda>i b. \<lparr>voltage = (voltage b)[i := 0], current = (current b)[i := 0],
                   power = (power b)[i := F_0]\<rparr>)
          [nrails..<nat MAX_POWER_RAILS]
          (fold (read_power_rail pl fdv fdc rd) [0..<nrails] a)"

definition read_thermals ::
  "platform \<Rightarrow> int list \<Rightarrow> (int \<Rightarrow> string) \<Rightarrow> nat \<Rightarrow> f32 list \<Rightarrow> f32 list" where
  "read_thermals pl fdt rd nzones temps =
     zero_from nzones (nat MAX_THERMAL_ZONES)
       (fold (\<lambda>i ts. ts[i := f_div pl (f_of_int pl (sysfs_read_int pl (fdt ! i) (rd (fdt ! i)))) F_1000])
             [0..<nzones] temps)"

section \<open>Binary format (fastnvmetrics.hpp, packed structs)\<close>

text \<open>
  The structs are declared under \<open>#pragma pack(push, 1)\<close>: the bytes of a struct are
  the bytes of its members in declaration order, each integer and float in the
  target's little-endian order. \<open>le_bytes n w\<close> are the \<open>n\<close> low bytes of \<open>w\<close>.
  A C array of \<open>n\<close> elements is a list; \<open>fixed n d xs\<close> reads it at its declared
  size (the lists built below have that size already).
\<close>

definition le_bytes :: "nat \<Rightarrow> 'a::len word \<Rightarrow> u8 list" where
  "le_bytes n w = map (\<lambda>i. ucast (drop_bit (8 * i) w)) [0..<n]"

definition fixed :: "nat \<Rightarrow> 'a \<Rightarrow> 'a list \<Rightarrow> 'a list" where
  "fixed n d xs = take n (xs @ replicate n d)"

text \<open>
  Reading a file back: the integer that a little-endian byte sequence denotes, and
  the 64-bit field at an offset of the file. In \<open>FileHeader\<close> the four counts are
  at the offsets 56, 64, 72 and 80.
\<close>

definition le_word :: "u8 list \<Rightarrow> 'a::len word" where
  "le_word bs = foldr (\<lambda>b w. ucast b OR push_bit 8 w) bs 0"

definition u64_at :: "nat \<Rightarrow> u8 list \<Rightarrow> u64" where
  "u64_at off bs = le_word (take 8 (drop off bs))"

record FastSample =
  time_s :: f64
  gpu_load :: u16
  cpu_util :: "f32 list"
  cpu_aggregate :: f32
  ram_used_kb :: u64
  ram_available_kb :: u64
  emc_util :: f32

record MediumSample =
  time_s_m :: f64
  voltage_mv :: "u32 list"
  current_ma :: "u32 list"
  power_mw :: "f32 list"

record SlowSample =
  time_s_sl :: f64
  temp_c :: "f32 list"

record SyncPoint =
  sync_id :: u64
  fast_sample_idx :: u64

record FileHeader =
  magic :: u32
  version :: u32
  hdr_board_name :: "u8 list"
  hdr_num_cpu_cores :: u8
  num_power_rails :: u8
  num_thermal_zones :: u8
  emc_available :: u8
  hdr_fast_hz :: u32
  hdr_medium_hz :: u32
  hdr_slow_hz :: u32
  num_fast_samples :: u64
  num_medium_samples :: u64
  num_slow_samples :: u64
  num_sync_points :: u64
  power_rail_names :: "u8 list list"
  thermal_zone_names :: "u8 list list"
  reserved :: "u8 list"

definition FastSample_bytes :: "FastSample \<Rightarrow> u8 list" where
  "FastSample_bytes s =
     le_bytes 8 (time_s s) @ le_bytes 2 (gpu_load s)
     @ concat (map (le_bytes 4) (fixed 16 0 (cpu_util s)))
     @ le_bytes 4 (cpu_aggregate s)
     @ le_bytes 8 (ram_used_kb s) @ le_bytes 8 (ram_available_kb s)
     @ le_bytes 4 (emc_util s)"

definition MediumSample_bytes :: "MediumSample \<Rightarrow> u8 list" where
  "MediumSample_bytes s =
     le_bytes 8 (time_s_m s)
     @ concat (map (le_bytes 4) (fixed 8 0 (voltage_mv s)))
     @ concat (map (le_bytes 4) (fixed 8 0 (current_ma s)))
     @ concat (map (le_bytes 4) (fixed 8 0 (power_mw s)))"

definition SlowSample_bytes :: "SlowSample \<Rightarrow> u8 list" where
  "SlowSample_bytes s =
     le_bytes 8 (time_s_sl s) @ concat (map (le_bytes 4) (fixed 16 0 (temp_c s)))"

definition SyncPoint_bytes :: "SyncPoint \<Rightarrow> u8 list" where
  "SyncPoint_bytes s = le_bytes 8 (sync_id s) @ le_bytes 8 (fast_sample_idx s)"

definition FileHeader_bytes :: "FileHeader \<Rightarrow> u8 list" where
  "FileHeader_bytes h =
     le_bytes 4 (magic h) @ le_bytes 4 (version h)
     @ fixed 32 0 (hdr_board_name h)
     @ [hdr_num_cpu_cores h, num_power_rails h, num_thermal_zones h, emc_available h]
     @ le_bytes 4 (hdr_fast_hz h) @ le_bytes 4 (hdr_medium_hz h) @ le_bytes 4 (hdr_slow_hz h)
     @ le_bytes 8 (num_fast_samples h) @ le_bytes 8 (num_medium_samples h)
     @ le_bytes 8 (num_slow_samples h) @ le_bytes 8 (num_sync_points h)
     @ concat (map (fixed 24 0) (fixed 8 [] (power_rail_names h)))
     @ concat (map (fixed 24 0) (fixed 16 [] (thermal_zone_names h)))
     @ fixed 64 0 (reserved h)"

text \<open>
  \<open>std::strncpy(dst, src.c_str(), n)\<close> into a zero-initialised \<open>char[cap]\<close>
  with \<open>n < cap\<close>: the first \<open>n\<close> characters of the C string, then NULs.
\<close>

definition strncpy_into :: "nat \<Rightarrow> nat \<Rightarrow> string \<Rightarrow> u8 list" where
  "strncpy_into cap n src =
     fixed cap 0 (map of_char (take n (takeWhile (\<lambda>c. c \<noteq> NUL) src)))"

section \<open>The engine and its environment\<close>

datatype error = InvalidConfig | AlreadyRunning | IoOpenFailed

text \<open>
  A tier thread is represented by the point it has reached in its function. The
  fast thread is at the head of its primer loop with counter \<open>i\<close>
  (\<open>FPrimer i\<close>), between that loop and the store to \<open>warmed_up_\<close>
  (\<open>FPublish\<close>), at the head of its main loop (\<open>FMain\<close>), or has returned
  (\<open>FDone\<close>). A medium or slow thread is inside \<open>wait_for_warmup\<close> (\<open>TWait\<close>), at
  the head of its loop (\<open>TLoop\<close>), or has returned (\<open>TDone\<close>). A \<open>std::thread\<close>
  member is \<open>None\<close> when it is not joinable.
\<close>

datatype fast_pc = FPrimer nat | FPublish | FMain | FDone
datatype tier_pc = TWait | TLoop | TDone

record Engine =
  output_path :: string
  board :: BoardConfig
  config :: EngineConfig
  fast_thread :: "fast_pc option"
  medium_thread :: "tier_pc option"
  slow_thread :: "tier_pc option"
  running :: bool
  warmed_up :: bool
  fast_count :: u64
  sync_points :: "SyncPoint list"
  fast_samples :: "FastSample list"
  medium_samples :: "MediumSample list"
  slow_samples :: "SlowSample list"
  t0_s :: f64
  fd_gpu_load :: int
  fd_proc_stat :: int
  fd_meminfo :: int
  fd_emc :: int
  fd_voltage :: "int list"
  fd_current :: "int list"
  fd_thermal :: "int list"
  prev_cpu :: "CpuJiffies list"

text \<open>
  The part of the operating system the engine touches: which paths
  \<open>open(path, O_RDONLY)\<close> and \<open>fopen(path, "wb")\<close> succeed on, the descriptors
  the process holds open, and the regular files written so far.
\<close>

record world =
  readable :: "string \<Rightarrow> bool"
  creatable :: "string \<Rightarrow> bool"
  fd_table :: "int list"
  files :: "string \<Rightarrow> u8 list option"

text \<open>What one sampling iteration reads: the monotonic clock and the pseudo-files.\<close>

record tick_in =
  now :: f64
  rd :: "int \<Rightarrow> string"

subsection \<open>Constructor\<close>

text \<open>
  \<open>static_cast<int>(v.size())\<close>: the size, a \<open>size_t\<close>, read as a 32-bit
  two's-complement \<open>int\<close>.
\<close>

definition size_as_int :: "'a list \<Rightarrow> int" where
  "size_as_int xs = sint (word_of_nat (length xs) :: 32 word)"

definition Engine_init :: "string \<Rightarrow> BoardConfig \<Rightarrow> EngineConfig \<Rightarrow> Engine" where
  "Engine_init path b c =
     \<lparr>output_path = path, board = b, config = c,
      fast_thread = None, medium_thread = None, slow_thread = None,
      running = False, warmed_up = False, fast_count = 0,
      sync_points = [], fast_samples = [], medium_samples = [], slow_samples = [],
      t0_s = 0,
      fd_gpu_load = -1, fd_proc_stat = -1, fd_meminfo = -1, fd_emc = -1,
      fd_voltage = [], fd_current = [], fd_thermal = [],
      prev_cpu = []\<rparr>"

text \<open>
  \<open>Engine::Engine(output_path, board, config)\<close>. The world is passed through to
  make visible that the constructor leaves it alone.
\<close>

definition Engine_new ::
  "world \<Rightarrow> string \<Rightarrow> BoardConfig \<Rightarrow> EngineConfig \<Rightarrow> world \<times> (error + Engine)" where
  "Engine_new w path b c =
     (if num_cpu_cores b \<le> 0 \<or> num_cpu_cores b > MAX_CPU_CORES then (w, Inl InvalidConfig)
      else if size_as_int (power_rails b) > MAX_POWER_RAILS then (w, Inl InvalidConfig)
      else if size_as_int (thermal_zones b) > MAX_THERMAL_ZONES then (w, Inl InvalidConfig)
      else (w, Inr (Engine_init path b c)))"

subsection \<open>Descriptors (engine.cpp, lines 400-437)\<close>

text \<open>\<open>open\<close> returns the lowest descriptor not in use, or -1.\<close>

definition lowest_free :: "int list \<Rightarrow> int" where
  "lowest_free used =
     (case find (\<lambda>k. k \<notin> set used) (map int [0..<Suc (length used)]) of
        Some k \<Rightarrow> k | None \<Rightarrow> int (length used))"

definition sys_open :: "world \<Rightarrow> string \<Rightarrow> int \<times> world" where
  "sys_open w path =
     (if readable w path
      then (let fd = lowest_free (fd_table w) in (fd, w\<lparr>fd_table := fd # fd_table w\<rparr>))
      else (-1, w))"

definition sys_close :: "world \<Rightarrow> int \<Rightarrow> world" where
  "sys_close w fd = w\<lparr>fd_table := removeAll fd (fd_table w)\<rparr>"

definition try_open :: "world \<Rightarrow> string \<Rightarrow> int \<times> world" where
  "try_open w path = (if path = [] then (-1, w) else sys_open w path)"

fun open_rails ::
  "world \<Rightarrow> PowerRailConfig list \<Rightarrow> int list \<Rightarrow> int list \<Rightarrow> world \<times> int list \<times> int list" where
  "open_rails w [] fv fc = (w, fv, fc)"
| "open_rails w (r # rs) fv fc =
     (case try_open w (voltage_path r) of (v, w1) \<Rightarrow>
      case try_open w1 (current_path r) of (c, w2) \<Rightarrow>
        open_rails w2 rs (fv @ [v]) (fc @ [c]))"

fun open_zones :: "world \<Rightarrow> ThermalZoneConfig list \<Rightarrow> int list \<Rightarrow> world \<times> int list" where
  "open_zones w [] ft = (w, ft)"
| "open_zones w (z # zs) ft =
     (case try_open w (temp_path z) of (t, w1) \<Rightarrow> open_zones w1 zs (ft @ [t]))"

definition open_fds :: "world \<Rightarrow> Engine \<Rightarrow> world \<times> Engine" where
  "open_fds w e =
     (case try_open w (gpu_load_path (board e)) of (g, w1) \<Rightarrow>
      case try_open w1 ''/proc/stat'' of (st, w2) \<Rightarrow>
      case try_open w2 ''/proc/meminfo'' of (m, w3) \<Rightarrow>
      case try_open w3 (emc_actmon_path (board e)) of (em, w4) \<Rightarrow>
      case open_rails w4 (power_rails (board e)) (fd_voltage e) (fd_current e) of (w5, fv, fc) \<Rightarrow>
      case open_zones w5 (thermal_zones (board e)) (fd_thermal e) of (w6, ft) \<Rightarrow>
        (w6, e\<lparr>fd_gpu_load := g, fd_proc_stat := st, fd_meminfo := m, fd_emc := em,
               fd_voltage := fv, fd_current := fc, fd_thermal := ft\<rparr>))"

definition try_close :: "world \<Rightarrow> int \<Rightarrow> world \<times> int" where
  "try_close w fd = (if fd \<ge> 0 then (sys_close w fd, -1) else (w, fd))"

definition close_each :: "world \<Rightarrow> int list \<Rightarrow> world" where
  "close_each w fds = fold (\<lambda>fd w'. fst (try_close w' fd)) fds w"

definition close_fds :: "world \<Rightarrow> Engine \<Rightarrow> world \<times> Engine" where
  "close_fds w e =
     (case try_close w (fd_gpu_load e) of (w1, g) \<Rightarrow>
      case try_close w1 (fd_proc_stat e) of (w2, st) \<Rightarrow>
      case try_close w2 (fd_meminfo e) of (w3, m) \<Rightarrow>
      case try_close w3 (fd_emc e) of (w4, em) \<Rightarrow>
        (close_each (close_each (close_each w4 (fd_voltage e)) (fd_current e)) (fd_thermal e),
         e\<lparr>fd_gpu_load := g, fd_proc_stat := st, fd_meminfo := m, fd_emc := em,
           fd_voltage := [], fd_current := [], fd_thermal := []\<rparr>))"

subsection \<open>The trace writer (engine.cpp, lines 439-476)\<close>

definition build_header :: "Engine \<Rightarrow> FileHeader" where
  "build_header e =
     \<lparr>magic = MAGIC, version = VERSION,
      hdr_board_name = strncpy_into 32 31 (board_name (board e)),
      hdr_num_cpu_cores = word_of_int (num_cpu_cores (board e)),
      num_power_rails = word_of_nat (length (power_rails (board e))),
      num_thermal_zones = word_of_nat (length (thermal_zones (board e))),
      emc_available = (if fd_emc e \<ge> 0 then 1 else 0),
      hdr_fast_hz = fast_hz (config e),
      hdr_medium_hz = medium_hz (config e),
      hdr_slow_hz = slow_hz (config e),
      num_fast_samples = word_of_nat (length (fast_samples e)),
      num_medium_samples = word_of_nat (length (medium_samples e)),
      num_slow_samples = word_of_nat (length (slow_samples e)),
      num_sync_points = word_of_nat (length (sync_points e)),
      power_rail_names =
        fixed 8 (replicate 24 0) (map (\<lambda>r. strncpy_into 24 23 (label r)) (power_rails (board e))),
      thermal_zone_names =
        fixed 16 (replicate 24 0) (map (\<lambda>z. strncpy_into 24 23 (name z)) (thermal_zones (board e))),
      reserved = replicate 64 0\<rparr>"

text \<open>The bytes the five \<open>fwrite\<close> calls hand to the stream, in order.\<close>

definition trace_bytes :: "Engine \<Rightarrow> u8 list" where
  "trace_bytes e =
     FileHeader_bytes (build_header e)
     @ concat (map FastSample_bytes (fast_samples e))
     @ concat (map MediumSample_bytes (medium_samples e))
     @ concat (map SlowSample_bytes (slow_samples e))
     @ concat (map SyncPoint_bytes (sync_points e))"

text \<open>
  \<open>write_file()\<close> reads \<open>sync_points_\<close> twice, for the header count (line 459) and
  for the fifth \<open>fwrite\<close> (line 473), and does not hold \<open>sync_mtx_\<close>; a \<open>sync()\<close>
  of another thread can run in between. So the function is two steps.

  The first: \<open>fopen(path, "wb")\<close> fails (the \<open>runtime_error\<close>) or truncates the
  file and yields the stream; the header is built from the buffers as they are,
  and the header and the three sample arrays are handed to the stream. The
  result is the world and the bytes the stream has been given.
\<close>

definition write_file_head :: "world \<Rightarrow> Engine \<Rightarrow> error + world \<times> u8 list" where
  "write_file_head w e =
     (if \<not> creatable w (output_path e) then Inl IoOpenFailed
      else Inr (w\<lparr>files := (files w)(output_path e \<mapsto> [])\<rparr>,
                FileHeader_bytes (build_header e)
                @ concat (map FastSample_bytes (fast_samples e))
                @ concat (map MediumSample_bytes (medium_samples e))
                @ concat (map SlowSample_bytes (slow_samples e))))"

text \<open>
  The second: the fifth \<open>fwrite\<close>, of \<open>sync_points_\<close> as it is now, and \<open>fclose\<close>,
  after which the file holds what the stream was given.
\<close>

definition write_file_tail :: "world \<Rightarrow> u8 list \<Rightarrow> Engine \<Rightarrow> world" where
  "write_file_tail w buf e =
     w\<lparr>files := (files w)(output_path e \<mapsto> buf @ concat (map SyncPoint_bytes (sync_points e)))\<rparr>"

text \<open>\<open>write_file()\<close> when no other thread runs between its two steps.\<close>

definition write_file :: "world \<Rightarrow> Engine \<Rightarrow> error + world" where
  "write_file w e =
     (case write_file_head w e of
        Inl err \<Rightarrow> Inl err
      | Inr (w', buf) \<Rightarrow> Inr (write_file_tail w' buf e))"

subsection \<open>Lifecycle (engine.cpp, lines 83-138)\<close>

definition start :: "f64 \<Rightarrow> world \<Rightarrow> Engine \<Rightarrow> error + world \<times> Engine" where
  "start t w e =
     (if running e then Inl AlreadyRunning
      else
        let e1 = e\<lparr>running := True, warmed_up := False, fast_count := 0,
                   fast_samples := [], medium_samples := [], slow_samples := [],
                   sync_points := []\<rparr>
        in case open_fds w e1 of (w', e2) \<Rightarrow>
          Inr (w', e2\<lparr>prev_cpu := replicate (nat (num_cpu_cores (board e))) \<lparr>total = 0, idle = 0\<rparr>,
                     t0_s := t,
                     fast_thread := Some (FPrimer 0),
                     medium_thread := Some TWait,
                     slow_thread := Some TWait\<rparr>))"

text \<open>The predicate \<open>wait_for_warmup\<close> waits for on the condition variable.\<close>

definition wait_for_warmup_ready :: "Engine \<Rightarrow> bool" where
  "wait_for_warmup_ready e = warmed_up e"

definition sync :: "Engine \<Rightarrow> u64 \<times> Engine" where
  "sync e =
     (let id = word_of_nat (length (sync_points e)) + 1
      in (id, e\<lparr>sync_points := sync_points e @ [\<lparr>sync_id = id, fast_sample_idx = fast_count e\<rparr>]\<rparr>))"

definition sample_count :: "Engine \<Rightarrow> u64" where
  "sample_count e = fast_count e"

definition is_running :: "Engine \<Rightarrow> bool" where
  "is_running e = running e"

subsection \<open>Sampling loops (engine.cpp, lines 319-396)\<close>

text \<open>
  The body of a fast iteration up to \<open>fetch_add\<close>: the sample is
  zero-initialised (\<open>FastSample s{}\<close>), filled by the readers, appended, and the
  counter is bumped.
\<close>

definition fast_sample :: "platform \<Rightarrow> tick_in \<Rightarrow> Engine \<Rightarrow> Engine" where
  "fast_sample pl inp e =
     (case read_cpu pl (fd_proc_stat e) (num_cpu_cores (board e)) (rd inp (fd_proc_stat e))
             (replicate 16 0) (prev_cpu e) of (pc, agg, prev') \<Rightarrow>
      case read_ram (fd_meminfo e) (rd inp (fd_meminfo e)) of (used, avail) \<Rightarrow>
        e\<lparr>prev_cpu := prev',
          fast_samples := fast_samples e @
            [\<lparr>time_s = d_sub pl (now inp) (t0_s e),
              gpu_load = read_gpu_load pl (fd_gpu_load e) (rd inp (fd_gpu_load e)),
              cpu_util = pc, cpu_aggregate = agg,
              ram_used_kb = used, ram_available_kb = avail,
              emc_util = read_emc pl (fd_emc e) (rd inp (fd_emc e))\<rparr>],
          fast_count := fast_count e + 1\<rparr>)"

definition medium_sample :: "platform \<Rightarrow> tick_in \<Rightarrow> Engine \<Rightarrow> Engine" where
  "medium_sample pl inp e =
     (let a = read_power pl (fd_voltage e) (fd_current e) (rd inp)
                (nat (size_as_int (power_rails (board e))))
                \<lparr>voltage = replicate 8 0, current = replicate 8 0, power = replicate 8 0\<rparr>
      in e\<lparr>medium_samples := medium_samples e @
            [\<lparr>time_s_m = d_sub pl (now inp) (t0_s e),
              voltage_mv = voltage a, current_ma = current a, power_mw = power a\<rparr>]\<rparr>)"

definition slow_sample :: "platform \<Rightarrow> tick_in \<Rightarrow> Engine \<Rightarrow> Engine" where
  "slow_sample pl inp e =
     e\<lparr>slow_samples := slow_samples e @
         [\<lparr>time_s_sl = d_sub pl (now inp) (t0_s e),
           temp_c = read_thermals pl (fd_thermal e) (rd inp)
                      (nat (size_as_int (thermal_zones (board e)))) (replicate 16 0)\<rparr>]\<rparr>"

text \<open>
  One scheduling step of the thread running \<open>run_fast\<close>: a loop-head test together
  with the iteration it admits, or the store to \<open>warmed_up_\<close> with the
  \<open>notify_all\<close>.
\<close>

definition run_fast :: "platform \<Rightarrow> tick_in \<Rightarrow> Engine \<Rightarrow> Engine" where
  "run_fast pl inp e =
     (case fast_thread e of
        Some (FPrimer i) \<Rightarrow>
          if i < 10 \<and> running e
          then (fast_sample pl inp e)\<lparr>fast_thread := Some (FPrimer (i + 1))\<rparr>
          else e\<lparr>fast_thread := Some FPublish\<rparr>
      | Some FPublish \<Rightarrow> e\<lparr>warmed_up := True, fast_thread := Some FMain\<rparr>
      | Some FMain \<Rightarrow>
          if running e then fast_sample pl inp e
          else e\<lparr>fast_thread := Some FDone\<rparr>
      | _ \<Rightarrow> e)"

text \<open>
  One scheduling step of \<open>run_medium\<close> and of \<open>run_slow\<close>: inside
  \<open>wait_for_warmup\<close> the thread stays where it is until the predicate holds.
\<close>

definition run_medium :: "platform \<Rightarrow> tick_in \<Rightarrow> Engine \<Rightarrow> Engine" where
  "run_medium pl inp e =
     (case medium_thread e of
        Some TWait \<Rightarrow> if wait_for_warmup_ready e then e\<lparr>medium_thread := Some TLoop\<rparr> else e
      | Some TLoop \<Rightarrow>
          if running e then medium_sample pl inp e
          else e\<lparr>medium_thread := Some TDone\<rparr>
      | _ \<Rightarrow> e)"

definition run_slow :: "platform \<Rightarrow> tick_in \<Rightarrow> Engine \<Rightarrow> Engine" where
  "run_slow pl inp e =
     (case slow_thread e of
        Some TWait \<Rightarrow> if wait_for_warmup_ready e then e\<lparr>slow_thread := Some TLoop\<rparr> else e
      | Some TLoop \<Rightarrow>
          if running e then slow_sample pl inp e
          else e\<lparr>slow_thread := Some TDone\<rparr>
      | _ \<Rightarrow> e)"

subsection \<open>The system: engine, world and the thread that calls \<open>start\<close> and \<open>stop\<close>\<close>

text \<open>
  \<open>stop()\<close> blocks in its joins while the tier threads run, so it is a sequence of
  steps of the calling thread: the store \<open>running_ = false\<close> (on the call), the
  three joins, the two steps of \<open>write_file\<close> and \<open>close_fds\<close>. The caller is idle,
  inside \<open>stop\<close> before one of these steps, or back from its last call, which
  returned or threw. Between the two steps of \<open>write_file\<close> it holds the stream
  (\<open>WriteSyncPoints buf\<close>, \<open>buf\<close> the bytes given to the stream so far).
\<close>

datatype ctl_pc = Idle | JoinFast | JoinMedium | JoinSlow | WriteFile | WriteSyncPoints "u8 list"
  | CloseFds | Returned | Threw error

record sys =
  wld :: world
  eng :: Engine
  ctl :: ctl_pc

fun in_stop :: "ctl_pc \<Rightarrow> bool" where
  "in_stop Idle = False"
| "in_stop Returned = False"
| "in_stop (Threw err) = False"
| "in_stop c = True"

fun in_write :: "ctl_pc \<Rightarrow> bool" where
  "in_write (WriteSyncPoints buf) = True"
| "in_write c = False"

text \<open>
  \<open>if (t.joinable()) t.join();\<close> the join returns once the thread has returned.
\<close>

definition stop_step :: "sys \<Rightarrow> sys" where
  "stop_step s =
     (case ctl s of
        JoinFast \<Rightarrow>
          (case fast_thread (eng s) of
             None \<Rightarrow> s\<lparr>ctl := JoinMedium\<rparr>
           | Some pc \<Rightarrow> if pc = FDone
                        then s\<lparr>eng := (eng s)\<lparr>fast_thread := None\<rparr>, ctl := JoinMedium\<rparr>
                        else s)
      | JoinMedium \<Rightarrow>
          (case medium_thread (eng s) of
             None \<Rightarrow> s\<lparr>ctl := JoinSlow\<rparr>
           | Some pc \<Rightarrow> if pc = TDone
                        then s\<lparr>eng := (eng s)\<lparr>medium_thread := None\<rparr>, ctl := JoinSlow\<rparr>
                        else s)
      | JoinSlow \<Rightarrow>
          (case slow_thread (eng s) of
             None \<Rightarrow> s\<lparr>ctl := WriteFile\<rparr>
           | Some pc \<Rightarrow> if pc = TDone
                        then s\<lparr>eng := (eng s)\<lparr>slow_thread := None\<rparr>, ctl := WriteFile\<rparr>
                        else s)
      | WriteFile \<Rightarrow>
          (case write_file_head (wld s) (eng s) of
             Inl err \<Rightarrow> s\<lparr>ctl := Threw err\<rparr>
           | Inr (w, buf) \<Rightarrow> s\<lparr>wld := w, ctl := WriteSyncPoints buf\<rparr>)
      | WriteSyncPoints buf \<Rightarrow>
          s\<lparr>wld := write_file_tail (wld s) buf (eng s), ctl := CloseFds\<rparr>
      | CloseFds \<Rightarrow>
          (case close_fds (wld s) (eng s) of (w, e) \<Rightarrow> s\<lparr>wld := w, eng := e, ctl := Returned\<rparr>)
      | _ \<Rightarrow> s)"

text \<open>
  What can happen next: a tier thread is scheduled, some thread calls \<open>sync\<close>, or
  the controlling thread calls \<open>start\<close> or \<open>stop\<close> (when it is not inside
  \<open>stop\<close>) or takes its next step of \<open>stop\<close>.
\<close>

datatype event = CallStart f64 | CallStop | Ctl | CallSync
  | Fast tick_in | Medium tick_in | Slow tick_in

fun step :: "platform \<Rightarrow> event \<Rightarrow> sys \<Rightarrow> sys" where
  "step pl (CallStart t) s =
     (if in_stop (ctl s) then s
      else case start t (wld s) (eng s) of
             Inl err \<Rightarrow> s\<lparr>ctl := Threw err\<rparr>
           | Inr (w, e) \<Rightarrow> s\<lparr>wld := w, eng := e, ctl := Returned\<rparr>)"
| "step pl CallStop s =
     (if in_stop (ctl s) then s
      else s\<lparr>eng := (eng s)\<lparr>running := False\<rparr>, ctl := JoinFast\<rparr>)"
| "step pl Ctl s = stop_step s"
| "step pl CallSync s = s\<lparr>eng := snd (sync (eng s))\<rparr>"
| "step pl (Fast inp) s = s\<lparr>eng := run_fast pl inp (eng s)\<rparr>"
| "step pl (Medium inp) s = s\<lparr>eng := run_medium pl inp (eng s)\<rparr>"
| "step pl (Slow inp) s = s\<lparr>eng := run_slow pl inp (eng s)\<rparr>"

definition exec :: "platform \<Rightarrow> event list \<Rightarrow> sys \<Rightarrow> sys" where
  "exec pl evs s = fold (step pl) evs s"

text \<open>A system right after a successful construction.\<close>

definition boot :: "world \<Rightarrow> string \<Rightarrow> BoardConfig \<Rightarrow> EngineConfig \<Rightarrow> sys option" where
  "boot w path b c =
     (case Engine_new w path b c of
        (w', Inr e) \<Rightarrow> Some \<lparr>wld = w', eng = e, ctl = Idle\<rparr>
      | (w', Inl err) \<Rightarrow> None)"

text \<open>\<open>stop()\<close> with no other thread scheduled in between: the call and its six steps.\<close>

definition stop_alone :: "event list" where
  "stop_alone = [CallStop, Ctl, Ctl, Ctl, Ctl, Ctl, Ctl]"

fun is_Fast :: "event \<Rightarrow> bool" where
  "is_Fast (Fast inp) = True"
| "is_Fast ev = False"

fun is_CallSync :: "event \<Rightarrow> bool" where
  "is_CallSync CallSync = True"
| "is_CallSync ev = False"

fun is_CallStart :: "event \<Rightarrow> bool" where
  "is_CallStart (CallStart t) = True"
| "is_CallStart ev = False"

text \<open>The clock readings that the steps of the fast thread are given, in order.\<close>

fun fast_now :: "event \<Rightarrow> f64 list" where
  "fast_now (Fast inp) = [now inp]"
| "fast_now ev = []"

definition fast_nows :: "event list \<Rightarrow> f64 list" where
  "fast_nows evs = concat (map fast_now evs)"

subsection \<open>Example inputs\<close>

text \<open>
  A platform, a board, a world and a tick on which the definitions are evaluated
  below. The platform computes on the bit patterns as integers; the theorems do
  not depend on it.
\<close>

definition demo_platform :: platform where
  "demo_platform =
     \<lparr>atoi = (\<lambda>s. uint (fst (parse_digits 0 s))),
      f_of_u64 = ucast, f_of_u32 = id, f_of_int = word_of_int,
      f_mul = (*), f_div = (div), f_add = (+), f_less = (<), d_sub = (-)\<rparr>"

definition demo_board :: BoardConfig where
  "demo_board =
     \<lparr>board_name = ''demo'', num_cpu_cores = 2, gpu_load_path = ''/sys/gpu/load'',
      emc_actmon_path = [], emc_clk_rate_path = [],
      power_rails = [\<lparr>label = ''VDD_IN'', voltage_path = ''/sys/in1'', current_path = ''/sys/curr1''\<rparr>],
      thermal_zones = [\<lparr>name = ''cpu-thermal'', temp_path = ''/sys/temp0''\<rparr>]\<rparr>"

definition demo_world :: world where
  "demo_world =
     \<lparr>readable = (\<lambda>p. p = ''/sys/gpu/load'' \<or> p = ''/proc/stat''),
      creatable = (\<lambda>p. p = ''/tmp/trace.bin''),
      fd_table = [0, 1, 2],
      files = (\<lambda>p. None)\<rparr>"

definition demo_tick :: tick_in where
  "demo_tick = \<lparr>now = 7, rd = (\<lambda>fd. [])\<rparr>"

definition demo_sys :: sys where
  "demo_sys =
     \<lparr>wld = demo_world,
      eng = Engine_init ''/tmp/trace.bin'' demo_board default_EngineConfig,
      ctl = Idle\<rparr>"

text \<open>The same system where the output path cannot be created.\<close>

definition ro_sys :: sys where
  "ro_sys = demo_sys\<lparr>wld := demo_world\<lparr>creatable := (\<lambda>p. False)\<rparr>\<rparr>"

text \<open>
  A run that is stopped at once: \<open>start\<close>, the call of \<open>stop\<close>, the tier threads
  running to their ends, and the three joins of \<open>stop\<close>.
\<close>

definition short_run :: "event list" where
  "short_run =
     [CallStart 0, CallStop, Fast demo_tick, Fast demo_tick, Fast demo_tick,
      Medium demo_tick, Medium demo_tick, Slow demo_tick, Slow demo_tick, Ctl, Ctl, Ctl]"

text \<open>
  A full run: ten primers, the warmup, one more fast sample, a sync point, one
  medium and one slow sample, then \<open>stop\<close> up to the point where it calls
  \<open>write_file\<close>.
\<close>

definition full_run :: "event list" where
  "full_run =
     CallStart 0 # replicate 13 (Fast demo_tick)
     @ [CallSync, Medium demo_tick, Medium demo_tick, Slow demo_tick, Slow demo_tick,
        CallStop, Fast demo_tick, Medium demo_tick, Slow demo_tick, Ctl, Ctl, Ctl]"

definition at_write :: sys where
  "at_write = exec demo_platform full_run demo_sys"

text \<open>A run with three sync points, and a run up to the end of the warmup.\<close>

definition sync_run :: "event list" where
  "sync_run = [CallStart 0, Fast demo_tick, CallSync, Fast demo_tick, Fast demo_tick, CallSync, CallSync]"

definition stopped_early :: sys where
  "stopped_early = exec demo_platform [CallStart 0, Fast demo_tick, Fast demo_tick, CallStop] demo_sys"

definition warm_run :: "event list" where
  "warm_run = CallStart 0 # replicate 12 (Fast demo_tick)"

text \<open>
  Two fast samples, a \<open>sync()\<close>, and \<open>stop()\<close> run to its end, with a second
  \<open>sync()\<close> of another thread: in \<open>race_run\<close> it runs while \<open>stop()\<close> is between the
  two steps of \<open>write_file\<close>, in \<open>quiet_run\<close> after \<open>stop()\<close> has returned.
\<close>

definition race_run :: "event list" where
  "race_run =
     [CallStart 0, Fast demo_tick, Fast demo_tick, CallSync, CallStop,
      Fast demo_tick, Fast demo_tick, Fast demo_tick,
      Medium demo_tick, Medium demo_tick, Slow demo_tick, Slow demo_tick,
      Ctl, Ctl, Ctl, Ctl, CallSync, Ctl, Ctl]"

definition quiet_run :: "event list" where
  "quiet_run =
     [CallStart 0, Fast demo_tick, Fast demo_tick, CallSync, CallStop,
      Fast demo_tick, Fast demo_tick, Fast demo_tick,
      Medium demo_tick, Medium demo_tick, Slow demo_tick, Slow demo_tick,
      Ctl, Ctl, Ctl, Ctl, Ctl, Ctl, CallSync]"

text \<open>A tick at a given clock reading, and a run whose clock advances.\<close>

definition tick_at :: "f64 \<Rightarrow> tick_in" where
  "tick_at t = \<lparr>now = t, rd = (\<lambda>fd. [])\<rparr>"

definition clock_run :: "event list" where
  "clock_run = [CallStart 5, Fast (tick_at 7), Fast (tick_at 8), CallSync, Fast (tick_at 9)]"

text \<open>
  A \<open>/proc/stat\<close> with the aggregate line, two core lines and a line that is not a
  core line; a tick that reads it from descriptor 4; the demo engine right after
  \<open>start\<close>.
\<close>

definition stat_text :: string where
  "stat_text =
     ''cpu  11 2 2 33 4 0 0 0 0 0'' @ [NL] @
     ''cpu0 5 1 2 30 4 0 0 0 0 0'' @ [NL] @
     ''cpu1 6 1 0 3 0 0 0 0 0 0'' @ [NL] @
     ''intr 5'' @ [NL]"

definition stat_tick :: tick_in where
  "stat_tick = \<lparr>now = 9, rd = (\<lambda>fd. if fd = 4 then stat_text else [])\<rparr>"

definition started :: sys where
  "started = exec demo_platform [CallStart 0] demo_sys"

subsection \<open>The CPU reader, line by line\<close>

text \<open>The lines of a buffer: the pieces between its newlines.\<close>

fun split_lines :: "string \<Rightarrow> string list" where
  "split_lines [] = [[]]"
| "split_lines (x # xs) =
     (if x = NL then [] # split_lines xs
      else (x # hd (split_lines xs)) # tl (split_lines xs))"

text \<open>What follows a line in the buffer: nothing, or a newline and the rest.\<close>

definition line_end :: "string \<Rightarrow> bool" where
  "line_end r \<longleftrightarrow> r = [] \<or> hd r = NL"

text \<open>
  The lines the reader parses: the first line is skipped, and of the next
  \<open>num_cpu_cores\<close> lines those up to the first that does not begin with \<open>cpu\<close>.
\<close>

definition starts_cpu :: "string \<Rightarrow> bool" where
  "starts_cpu l \<longleftrightarrow> take 3 l = ''cpu''"

definition stat_lines :: "int \<Rightarrow> int \<Rightarrow> string \<Rightarrow> string list" where
  "stat_lines fd n content =
     (case sysfs_read fd 4096 content of
        None \<Rightarrow> []
      | Some buf \<Rightarrow> takeWhile starts_cpu (take (nat n) (tl (split_lines buf))))"

text \<open>
  The fields of a \<open>cpuN\<close> line: the up to ten unsigned integers that follow the
  name, in ten slots that start as zero. \<open>total\<close> is the sum of the first 8
  fields, \<open>idle_sum\<close> is \<open>idle + iowait\<close>, the fields 3 and 4.
\<close>

definition line_fields :: "string \<Rightarrow> u64 list" where
  "line_fields l =
     (let q0 = dropWhile is_digit (drop 3 l);
          q1 = (if deref q0 = CHR '' '' then tl q0 else q0)
      in fst (parse_vals 0 (replicate 10 0) q1))"

definition line_jiffies :: "string \<Rightarrow> CpuJiffies" where
  "line_jiffies l =
     \<lparr>total = sum_list (take 8 (line_fields l)), idle = line_fields l ! 3 + line_fields l ! 4\<rparr>"

text \<open>
  The utilisation of a core: \<open>d_total = total - prev_total\<close>,
  \<open>d_idle = idle_sum - prev_idle\<close> (in 64 bits, as the counters are),
  \<open>100 * (d_total - d_idle) / d_total\<close> when \<open>d_total > 0\<close> and 0 otherwise,
  clamped to [0, 100].
\<close>

definition core_util :: "platform \<Rightarrow> CpuJiffies \<Rightarrow> CpuJiffies \<Rightarrow> f32" where
  "core_util pl new prev =
     clamp_f pl
       (if total new - total prev > 0
        then f_div pl
               (f_mul pl F_100 (f_of_u64 pl ((total new - total prev) - (idle new - idle prev))))
               (f_of_u64 pl (total new - total prev))
        else F_0)
       F_0 F_100"

text \<open>
  What it says of a result \<open>r\<close> that it is the value \<open>v\<close> clamped to \<open>[lo, hi]\<close>, in
  the platform's order: \<open>r\<close> is not below \<open>lo\<close> and not above \<open>hi\<close>; it is \<open>lo\<close> when
  \<open>v\<close> is below \<open>lo\<close>, \<open>hi\<close> when \<open>v\<close> is above \<open>hi\<close>, and \<open>v\<close> itself otherwise.
\<close>

definition clamped_to :: "platform \<Rightarrow> f32 \<Rightarrow> f32 \<Rightarrow> f32 \<Rightarrow> f32 \<Rightarrow> bool" where
  "clamped_to pl lo hi v r \<longleftrightarrow>
     \<not> f_less pl r lo \<and> \<not> f_less pl hi r
   \<and> (f_less pl v lo \<longrightarrow> r = lo)
   \<and> (\<not> f_less pl v lo \<and> f_less pl hi v \<longrightarrow> r = hi)
   \<and> (\<not> f_less pl v lo \<and> \<not> f_less pl hi v \<longrightarrow> r = v)"

text \<open>
  The reader as the specification describes it: each parsed line gives a core
  its new jiffies and, against the previous ones, its utilisation; the slots
  beyond the parsed cores are zero; the aggregate is the mean of the parsed
  cores (the sum taken in core order); the previous values of the parsed cores
  are replaced.
\<close>

definition read_cpu_spec ::
  "platform \<Rightarrow> int \<Rightarrow> int \<Rightarrow> string \<Rightarrow> CpuJiffies list \<Rightarrow> f32 list \<times> f32 \<times> CpuJiffies list" where
  "read_cpu_spec pl fd n content prev =
     (let ls = stat_lines fd n content;
          k = length ls;
          new = map line_jiffies ls;
          utils = map2 (core_util pl) new prev
      in (utils @ replicate (16 - k) F_0,
          (if k > 0 then f_div pl (foldl (f_add pl) F_0 utils) (f_of_int pl (int k)) else F_0),
          new @ drop k prev))"

text \<open>
  A line as the kernel writes it: \<open>cpu\<close>, the core number, a space, and decimal
  numbers separated by single spaces. \<open>dec_value\<close> is the number a digit string
  denotes, in 64 bits.
\<close>

definition dec_value :: "string \<Rightarrow> u64" where
  "dec_value ds = foldl (\<lambda>v c. v * 10 + digit_val c) 0 ds"

definition number :: "string \<Rightarrow> bool" where
  "number t \<longleftrightarrow> t \<noteq> [] \<and> (\<forall>c \<in> set t. is_digit c)"

fun fields_text :: "string list \<Rightarrow> string" where
  "fields_text [] = []"
| "fields_text [t] = t"
| "fields_text (t # ts) = t @ CHR '' '' # fields_text ts"

text \<open>The per-core loop of the source, seen as a loop over lines.\<close>

definition upd_core :: "platform \<Rightarrow> nat \<Rightarrow> CpuJiffies \<Rightarrow> cpu_state \<Rightarrow> cpu_state" where
  "upd_core pl c new st =
     \<lparr>per_core = (per_core st)[c := cpu_util_of pl new (prev_cpu_st st ! c)],
      prev_cpu_st = (prev_cpu_st st)[c := new],
      sum_util = f_add pl (sum_util st) (cpu_util_of pl new (prev_cpu_st st ! c)),
      cores_parsed = cores_parsed st + 1\<rparr>"

fun lines_loop :: "platform \<Rightarrow> nat \<Rightarrow> string list \<Rightarrow> cpu_state \<Rightarrow> cpu_state" where
  "lines_loop pl c [] st = st"
| "lines_loop pl c (l # ls) st = lines_loop pl (Suc c) ls (upd_core pl c (line_jiffies l) st)"

definition segs :: "string option \<Rightarrow> string list" where
  "segs p = (case p of None \<Rightarrow> [] | Some l \<Rightarrow> split_lines l)"

subsection \<open>Invariants\<close>

text \<open>
  What holds of the engine in every state: the counter is the size of the fast
  buffer; the primer loop has appended as many samples as its counter says and
  \<open>warmed_up_\<close> is still false; behind the primer loop there are ten samples unless
  the run was stopped; a tier thread is in its main loop only after the warmup.
\<close>

definition run_inv :: "Engine \<Rightarrow> bool" where
  "run_inv e \<longleftrightarrow>
     fast_count e = word_of_nat (length (fast_samples e))
   \<and> (\<forall>i. fast_thread e = Some (FPrimer i) \<longrightarrow>
          \<not> warmed_up e \<and> length (fast_samples e) = i \<and> i \<le> 10)
   \<and> (fast_thread e = Some FPublish \<longrightarrow>
         \<not> warmed_up e \<and> (length (fast_samples e) = 10 \<or> \<not> running e))
   \<and> (fast_thread e = Some FMain \<or> fast_thread e = Some FDone \<longrightarrow> warmed_up e)
   \<and> (warmed_up e \<and> running e \<longrightarrow> 10 \<le> length (fast_samples e))
   \<and> (medium_thread e = Some TLoop \<longrightarrow> warmed_up e)
   \<and> (slow_thread e = Some TLoop \<longrightarrow> warmed_up e)
   \<and> (\<not> warmed_up e \<longrightarrow> medium_samples e = [] \<and> slow_samples e = [])"

text \<open>
  What holds of the caller and the threads: inside \<open>stop\<close> the flag \<open>running_\<close> is
  false and the threads already joined are not joinable; an engine that is not
  running and not inside \<open>stop\<close> has no joinable thread.
\<close>

definition ctl_inv :: "sys \<Rightarrow> bool" where
  "ctl_inv s \<longleftrightarrow>
     (in_stop (ctl s) \<longrightarrow> \<not> running (eng s))
   \<and> (\<not> running (eng s) \<and> \<not> in_stop (ctl s) \<longrightarrow>
        fast_thread (eng s) = None \<and> medium_thread (eng s) = None \<and> slow_thread (eng s) = None)
   \<and> (ctl s = JoinMedium \<or> ctl s = JoinSlow \<or> ctl s = WriteFile \<or> in_write (ctl s)
        \<or> ctl s = CloseFds \<longrightarrow>
        fast_thread (eng s) = None)
   \<and> (ctl s = JoinSlow \<or> ctl s = WriteFile \<or> in_write (ctl s) \<or> ctl s = CloseFds \<longrightarrow>
        medium_thread (eng s) = None)
   \<and> (ctl s = WriteFile \<or> in_write (ctl s) \<or> ctl s = CloseFds \<longrightarrow>
        slow_thread (eng s) = None)"

text \<open>An engine that has not been started since its construction.\<close>

definition fresh_inv :: "sys \<Rightarrow> bool" where
  "fresh_inv s \<longleftrightarrow>
     \<not> running (eng s) \<and> fast_thread (eng s) = None \<and> medium_thread (eng s) = None
   \<and> slow_thread (eng s) = None \<and> fast_samples (eng s) = [] \<and> medium_samples (eng s) = []
   \<and> slow_samples (eng s) = []"

text \<open>
  What holds of the sync-point log: the ids are 1, 2, ... in order, and, as long
  as the number of fast samples fits the 64-bit counter, the recorded indices are
  sorted and none exceeds the counter.
\<close>

definition sync_inv :: "Engine \<Rightarrow> bool" where
  "sync_inv e \<longleftrightarrow>
     map sync_id (sync_points e) = map word_of_nat [1..<Suc (length (sync_points e))]
   \<and> (length (fast_samples e) < 2 ^ 64 \<longrightarrow>
        sorted (map fast_sample_idx (sync_points e))
        \<and> (\<forall>sp \<in> set (sync_points e). fast_sample_idx sp \<le> fast_count e))"

text \<open>
  How far the fast thread of a stopped run is from having set \<open>warmed_up_\<close>: two
  steps inside the primer loop, one behind it.
\<close>

definition warm_rank :: "Engine \<Rightarrow> nat" where
  "warm_rank e =
     (if warmed_up e then 0
      else case fast_thread e of Some (FPrimer i) \<Rightarrow> 2 | Some FPublish \<Rightarrow> 1 | _ \<Rightarrow> 0)"

definition warming :: "Engine \<Rightarrow> bool" where
  "warming e \<longleftrightarrow>
     \<not> running e
   \<and> (warmed_up e \<or> (\<exists>i. fast_thread e = Some (FPrimer i)) \<or> fast_thread e = Some FPublish)"

text \<open>
  While the fast thread exists, \<open>prev_cpu_\<close> has one entry per configured core
  (\<open>start\<close> assigns it), and the constructor has bounded the core count by 16.
\<close>

definition cpu_inv :: "Engine \<Rightarrow> bool" where
  "cpu_inv e \<longleftrightarrow>
     num_cpu_cores (board e) \<le> 16
   \<and> (fast_thread e \<noteq> None \<longrightarrow> length (prev_cpu e) = nat (num_cpu_cores (board e)))"

text \<open>
  The timestamps in the fast buffer are the clock readings \<open>ns\<close>, each minus the
  \<open>t0_s_\<close> of the run.
\<close>

definition stamps_of :: "platform \<Rightarrow> f64 list \<Rightarrow> Engine \<Rightarrow> bool" where
  "stamps_of pl ns e \<longleftrightarrow> map time_s (fast_samples e) = map (\<lambda>n. d_sub pl n (t0_s e)) ns"

section \<open>Properties\<close>

lemma in_stop_iff:
  "in_stop c \<longleftrightarrow>
     c = JoinFast \<or> c = JoinMedium \<or> c = JoinSlow \<or> c = WriteFile \<or> in_write c \<or> c = CloseFds"
  by (cases c) simp_all

subsection \<open>Construction\<close>

lemma size_as_int_small: "length xs < 2 ^ 31 \<Longrightarrow> size_as_int xs = int (length xs)"
  unfolding size_as_int_def
  by (simp add: signed_of_nat signed_take_bit_int_eq_self)

text \<open>
  Claim C7. Construction fails with \<open>InvalidConfig\<close> if and only if
  \<open>num_cpu_cores\<close> is outside 1..16, or there are more than 8 power rails, or more
  than 16 thermal zones; every other configuration is accepted, and the
  constructor leaves the file system (the world) as it was. The two list sizes
  are read through \<open>static_cast<int>\<close>, so they are taken to fit an \<open>int\<close>.
\<close>

theorem Engine_new_InvalidConfig_iff:
  assumes "length (power_rails b) < 2 ^ 31" and "length (thermal_zones b) < 2 ^ 31"
  shows "(snd (Engine_new w path b c) = Inl InvalidConfig
            \<longleftrightarrow> (num_cpu_cores b < 1 \<or> 16 < num_cpu_cores b
                 \<or> 8 < length (power_rails b) \<or> 16 < length (thermal_zones b)))
       \<and> ((\<exists>e. snd (Engine_new w path b c) = Inr e)
            \<longleftrightarrow> (1 \<le> num_cpu_cores b \<and> num_cpu_cores b \<le> 16
                 \<and> length (power_rails b) \<le> 8 \<and> length (thermal_zones b) \<le> 16))
       \<and> fst (Engine_new w path b c) = w"
  using assms
  by (auto simp: Engine_new_def size_as_int_small MAX_CPU_CORES_def MAX_POWER_RAILS_def
        MAX_THERMAL_ZONES_def)

theorem Engine_new_InvalidConfig_iff_witness:
  "length (power_rails demo_board) < 2 ^ 31
   \<and> length (thermal_zones demo_board) < 2 ^ 31
   \<and> snd (Engine_new demo_world ''/tmp/trace.bin'' demo_board default_EngineConfig)
       \<noteq> Inl InvalidConfig
   \<and> snd (Engine_new demo_world ''/tmp/trace.bin'' (demo_board\<lparr>num_cpu_cores := 17\<rparr>)
            default_EngineConfig) = Inl InvalidConfig
   \<and> fst (Engine_new demo_world ''/tmp/trace.bin'' demo_board default_EngineConfig) = demo_world"
  using Engine_new_InvalidConfig_iff [of demo_board demo_world "''/tmp/trace.bin''" default_EngineConfig]
    Engine_new_InvalidConfig_iff [of "demo_board\<lparr>num_cpu_cores := 17\<rparr>" demo_world
      "''/tmp/trace.bin''" default_EngineConfig]
  by (simp add: demo_board_def)

text \<open>
  Claim C8. Every successfully constructed engine has all three sampling
  frequencies greater than 0. The constructor does not look at the frequencies:
  with \<open>fast_hz = 0\<close> it succeeds and the engine keeps the zero frequency, which
  \<open>run_fast\<close> then divides by (\<open>1'000'000'000L / config_.fast_hz\<close>).
\<close>

theorem Engine_new_accepts_zero_hz:
  "snd (Engine_new demo_world ''/tmp/trace.bin'' demo_board
          \<lparr>fast_hz = 0, medium_hz = 100, slow_hz = 10\<rparr>)
     = Inr (Engine_init ''/tmp/trace.bin'' demo_board \<lparr>fast_hz = 0, medium_hz = 100, slow_hz = 10\<rparr>)
   \<and> fast_hz (config (Engine_init ''/tmp/trace.bin'' demo_board
                        \<lparr>fast_hz = 0, medium_hz = 100, slow_hz = 10\<rparr>)) = 0"
  by (simp add: Engine_new_def Engine_init_def demo_board_def size_as_int_def
        MAX_CPU_CORES_def MAX_POWER_RAILS_def MAX_THERMAL_ZONES_def)

subsection \<open>Invariants of a run\<close>

lemma fast_sample_fields:
  "fast_thread (fast_sample pl inp e) = fast_thread e"
  "medium_thread (fast_sample pl inp e) = medium_thread e"
  "slow_thread (fast_sample pl inp e) = slow_thread e"
  "running (fast_sample pl inp e) = running e"
  "warmed_up (fast_sample pl inp e) = warmed_up e"
  "fast_count (fast_sample pl inp e) = fast_count e + 1"
  "length (fast_samples (fast_sample pl inp e)) = Suc (length (fast_samples e))"
  "medium_samples (fast_sample pl inp e) = medium_samples e"
  "slow_samples (fast_sample pl inp e) = slow_samples e"
  "sync_points (fast_sample pl inp e) = sync_points e"
  by (simp_all add: fast_sample_def split: prod.splits)

lemma medium_sample_fields:
  "fast_thread (medium_sample pl inp e) = fast_thread e"
  "medium_thread (medium_sample pl inp e) = medium_thread e"
  "slow_thread (medium_sample pl inp e) = slow_thread e"
  "running (medium_sample pl inp e) = running e"
  "warmed_up (medium_sample pl inp e) = warmed_up e"
  "fast_count (medium_sample pl inp e) = fast_count e"
  "fast_samples (medium_sample pl inp e) = fast_samples e"
  "slow_samples (medium_sample pl inp e) = slow_samples e"
  "sync_points (medium_sample pl inp e) = sync_points e"
  by (simp_all add: medium_sample_def Let_def)

lemma slow_sample_fields:
  "fast_thread (slow_sample pl inp e) = fast_thread e"
  "medium_thread (slow_sample pl inp e) = medium_thread e"
  "slow_thread (slow_sample pl inp e) = slow_thread e"
  "running (slow_sample pl inp e) = running e"
  "warmed_up (slow_sample pl inp e) = warmed_up e"
  "fast_count (slow_sample pl inp e) = fast_count e"
  "fast_samples (slow_sample pl inp e) = fast_samples e"
  "medium_samples (slow_sample pl inp e) = medium_samples e"
  "sync_points (slow_sample pl inp e) = sync_points e"
  by (simp_all add: slow_sample_def)

lemma open_fds_fields:
  "fast_thread (snd (open_fds w e)) = fast_thread e"
  "medium_thread (snd (open_fds w e)) = medium_thread e"
  "slow_thread (snd (open_fds w e)) = slow_thread e"
  "running (snd (open_fds w e)) = running e"
  "warmed_up (snd (open_fds w e)) = warmed_up e"
  "fast_count (snd (open_fds w e)) = fast_count e"
  "fast_samples (snd (open_fds w e)) = fast_samples e"
  "medium_samples (snd (open_fds w e)) = medium_samples e"
  "slow_samples (snd (open_fds w e)) = slow_samples e"
  "sync_points (snd (open_fds w e)) = sync_points e"
  by (simp_all add: open_fds_def split: prod.splits)

lemma close_fds_fields:
  "fast_thread (snd (close_fds w e)) = fast_thread e"
  "medium_thread (snd (close_fds w e)) = medium_thread e"
  "slow_thread (snd (close_fds w e)) = slow_thread e"
  "running (snd (close_fds w e)) = running e"
  "warmed_up (snd (close_fds w e)) = warmed_up e"
  "fast_count (snd (close_fds w e)) = fast_count e"
  "fast_samples (snd (close_fds w e)) = fast_samples e"
  "medium_samples (snd (close_fds w e)) = medium_samples e"
  "slow_samples (snd (close_fds w e)) = slow_samples e"
  "sync_points (snd (close_fds w e)) = sync_points e"
  by (simp_all add: close_fds_def split: prod.splits)

lemma run_inv_init: "run_inv (Engine_init path b c)"
  by (simp add: run_inv_def Engine_init_def)

lemma start_fields:
  assumes "start t w e = Inr (w', e')"
  shows "running e'" "\<not> warmed_up e'" "fast_count e' = 0" "fast_samples e' = []"
    "medium_samples e' = []" "slow_samples e' = []" "sync_points e' = []"
    "fast_thread e' = Some (FPrimer 0)" "medium_thread e' = Some TWait"
    "slow_thread e' = Some TWait"
proof -
  define e1 where "e1 = e\<lparr>running := True, warmed_up := False, fast_count := 0,
                   fast_samples := [], medium_samples := [], slow_samples := [],
                   sync_points := []\<rparr>"
  have e': "e' = (snd (open_fds w e1))\<lparr>prev_cpu := replicate (nat (num_cpu_cores (board e))) \<lparr>total = 0, idle = 0\<rparr>,
                     t0_s := t,
                     fast_thread := Some (FPrimer 0),
                     medium_thread := Some TWait,
                     slow_thread := Some TWait\<rparr>"
    using assms unfolding start_def e1_def
    by (auto simp: Let_def split: if_splits prod.splits)
  show "running e'" "\<not> warmed_up e'" "fast_count e' = 0" "fast_samples e' = []"
    "medium_samples e' = []" "slow_samples e' = []" "sync_points e' = []"
    "fast_thread e' = Some (FPrimer 0)" "medium_thread e' = Some TWait"
    "slow_thread e' = Some TWait"
    unfolding e' by (simp_all add: open_fds_fields e1_def)
qed

lemma run_inv_start: "start t w e = Inr (w', e') \<Longrightarrow> run_inv e'"
  by (simp add: run_inv_def start_fields)

lemma run_inv_fast: "run_inv e \<Longrightarrow> run_inv (run_fast pl inp e)"
  unfolding run_inv_def run_fast_def
  by (auto simp: fast_sample_fields split: option.splits fast_pc.splits)

lemma run_inv_medium: "run_inv e \<Longrightarrow> run_inv (run_medium pl inp e)"
  unfolding run_inv_def run_medium_def wait_for_warmup_ready_def
  by (auto simp: medium_sample_fields split: option.splits tier_pc.splits)

lemma run_inv_slow: "run_inv e \<Longrightarrow> run_inv (run_slow pl inp e)"
  unfolding run_inv_def run_slow_def wait_for_warmup_ready_def
  by (auto simp: slow_sample_fields split: option.splits tier_pc.splits)

lemma run_inv_sync: "run_inv e \<Longrightarrow> run_inv (snd (sync e))"
  unfolding run_inv_def sync_def by (simp add: Let_def)

lemma run_inv_stop_flag: "run_inv e \<Longrightarrow> run_inv (e\<lparr>running := False\<rparr>)"
  unfolding run_inv_def by simp

lemma run_inv_close_fds: "run_inv e \<Longrightarrow> run_inv (snd (close_fds w e))"
  unfolding run_inv_def by (simp add: close_fds_fields)

lemma run_inv_stop_step: "run_inv (eng s) \<Longrightarrow> run_inv (eng (stop_step s))"
proof (cases "ctl s")
  case CloseFds
  assume "run_inv (eng s)"
  then have "run_inv (snd (close_fds (wld s) (eng s)))" by (rule run_inv_close_fds)
  then show ?thesis using CloseFds by (auto simp: stop_step_def split: prod.splits)
qed (auto simp: stop_step_def run_inv_def split: option.splits sum.splits)

lemma run_inv_step: "run_inv (eng s) \<Longrightarrow> run_inv (eng (step pl ev s))"
proof (cases ev)
  case (CallStart t)
  assume "run_inv (eng s)"
  then show ?thesis using CallStart
    by (auto simp: run_inv_start split: sum.splits)
qed (simp_all add: run_inv_fast run_inv_medium run_inv_slow run_inv_sync run_inv_stop_flag
       run_inv_stop_step)

lemma run_inv_exec: "run_inv (eng s) \<Longrightarrow> run_inv (eng (exec pl evs s))"
  unfolding exec_def by (induction evs arbitrary: s) (simp_all add: run_inv_step)

lemma boot_eng: "boot w path b c = Some s \<Longrightarrow> eng s = Engine_init path b c \<and> wld s = w \<and> ctl s = Idle"
  by (auto simp: boot_def Engine_new_def split: if_splits)

lemma run_inv_reachable: "boot w path b c = Some s0 \<Longrightarrow> run_inv (eng (exec pl evs s0))"
  by (rule run_inv_exec) (simp add: boot_eng run_inv_init)

subsection \<open>The trace file\<close>

lemma length_le_bytes: "length (le_bytes n w) = n"
  by (simp add: le_bytes_def)

lemma length_fixed: "length (fixed n d xs) = n"
  by (simp add: fixed_def)

lemma length_concat_const:
  "(\<And>x. x \<in> set xs \<Longrightarrow> length (f x) = k) \<Longrightarrow> length (concat (map f xs)) = k * length xs"
  by (induction xs) simp_all

lemma sizeof_FastSample: "length (FastSample_bytes s) = 98"
  by (simp add: FastSample_bytes_def length_le_bytes length_fixed length_concat_const)

lemma sizeof_MediumSample: "length (MediumSample_bytes s) = 104"
  by (simp add: MediumSample_bytes_def length_le_bytes length_fixed length_concat_const)

lemma sizeof_SlowSample: "length (SlowSample_bytes s) = 72"
  by (simp add: SlowSample_bytes_def length_le_bytes length_fixed length_concat_const)

lemma sizeof_SyncPoint: "length (SyncPoint_bytes s) = 16"
  by (simp add: SyncPoint_bytes_def length_le_bytes)

lemma sizeof_FileHeader: "length (FileHeader_bytes h) = 728"
  by (simp add: FileHeader_bytes_def length_le_bytes length_fixed length_concat_const)

lemma length_trace_bytes:
  "length (trace_bytes e) =
     728 + 98 * length (fast_samples e) + 104 * length (medium_samples e)
     + 72 * length (slow_samples e) + 16 * length (sync_points e)"
  by (simp add: trace_bytes_def sizeof_FileHeader sizeof_FastSample sizeof_MediumSample
        sizeof_SlowSample sizeof_SyncPoint length_concat_const)

lemma unat_count: "n < 2 ^ 64 \<Longrightarrow> unat (word_of_nat n :: u64) = n"
  by (simp add: unat_of_nat)

lemma write_file_Inr:
  "creatable w (output_path e) \<Longrightarrow>
     write_file w e = Inr (w\<lparr>files := (files w)(output_path e \<mapsto> trace_bytes e)\<rparr>)"
  by (simp add: write_file_def write_file_head_def write_file_tail_def trace_bytes_def)

lemma write_file_Inl:
  "\<not> creatable w (output_path e) \<Longrightarrow> write_file w e = Inl IoOpenFailed"
  by (simp add: write_file_def write_file_head_def)

lemma le_word_Cons: "le_word (b # bs) = ucast b OR push_bit 8 (le_word bs)"
  by (simp add: le_word_def)

lemma le_word_le_bytes_gen:
  "(le_word (map (\<lambda>i. ucast (drop_bit (8 * i) w)) [k..<k + n]) :: 'a::len word)
     = take_bit (8 * n) (drop_bit (8 * k) (w :: 'a word))"
proof (induction n arbitrary: k)
  case 0
  then show ?case by (simp add: le_word_def)
next
  case (Suc n)
  have u: "[k..<k + Suc n] = k # [Suc k..<Suc k + n]" by (simp add: upt_conv_Cons)
  show ?case
    unfolding u list.map le_word_Cons Suc [of "Suc k"]
    by (rule bit_word_eqI) (auto simp: bit_simps)
qed

lemma le_word_le_bytes:
  "LENGTH('a::len) \<le> 8 * n \<Longrightarrow> le_word (le_bytes n (w :: 'a word)) = w"
  using le_word_le_bytes_gen [of w 0 n] by (simp add: le_bytes_def take_bit_word_eq_self)

lemma header_counts_at:
  "u64_at 56 (FileHeader_bytes h @ rest) = num_fast_samples h"
  "u64_at 64 (FileHeader_bytes h @ rest) = num_medium_samples h"
  "u64_at 72 (FileHeader_bytes h @ rest) = num_slow_samples h"
  "u64_at 80 (FileHeader_bytes h @ rest) = num_sync_points h"
  by (simp_all add: u64_at_def FileHeader_bytes_def length_le_bytes length_fixed le_word_le_bytes)

text \<open>
  When no \<open>sync()\<close> runs between the two steps of \<open>write_file\<close>, the file is the
  header, the fast, medium and slow samples and the sync points of one state of
  the buffers, and the counts in the header of the file are their sizes.
\<close>

lemma trace_file_undisturbed:
  assumes "ctl s = WriteFile" and "creatable (wld s) (output_path (eng s))"
    and "length (fast_samples (eng s)) < 2 ^ 64" and "length (medium_samples (eng s)) < 2 ^ 64"
    and "length (slow_samples (eng s)) < 2 ^ 64" and "length (sync_points (eng s)) < 2 ^ 64"
  shows "files (wld (stop_step (stop_step s))) (output_path (eng s)) =
           Some (FileHeader_bytes (build_header (eng s))
                 @ concat (map FastSample_bytes (fast_samples (eng s)))
                 @ concat (map MediumSample_bytes (medium_samples (eng s)))
                 @ concat (map SlowSample_bytes (slow_samples (eng s)))
                 @ concat (map SyncPoint_bytes (sync_points (eng s))))
         \<and> unat (u64_at 56 (the (files (wld (stop_step (stop_step s))) (output_path (eng s)))))
             = length (fast_samples (eng s))
         \<and> unat (u64_at 64 (the (files (wld (stop_step (stop_step s))) (output_path (eng s)))))
             = length (medium_samples (eng s))
         \<and> unat (u64_at 72 (the (files (wld (stop_step (stop_step s))) (output_path (eng s)))))
             = length (slow_samples (eng s))
         \<and> unat (u64_at 80 (the (files (wld (stop_step (stop_step s))) (output_path (eng s)))))
             = length (sync_points (eng s))
         \<and> length (the (files (wld (stop_step (stop_step s))) (output_path (eng s)))) =
             728 + 98 * length (fast_samples (eng s)) + 104 * length (medium_samples (eng s))
             + 72 * length (slow_samples (eng s)) + 16 * length (sync_points (eng s))"
proof -
  let ?e = "eng s"
  let ?h = "build_header ?e"
  let ?out = "files (wld (stop_step (stop_step s))) (output_path ?e)"
  have written: "?out = Some (trace_bytes ?e)"
    using assms(1,2)
    by (simp add: stop_step_def write_file_head_def write_file_tail_def trace_bytes_def)
  have counts: "unat (num_fast_samples ?h) = length (fast_samples ?e)"
    "unat (num_medium_samples ?h) = length (medium_samples ?e)"
    "unat (num_slow_samples ?h) = length (slow_samples ?e)"
    "unat (num_sync_points ?h) = length (sync_points ?e)"
    using assms(3-6) by (simp_all add: build_header_def unat_count)
  have "?out =
           Some (FileHeader_bytes ?h
                 @ concat (map FastSample_bytes (fast_samples ?e))
                 @ concat (map MediumSample_bytes (medium_samples ?e))
                 @ concat (map SlowSample_bytes (slow_samples ?e))
                 @ concat (map SyncPoint_bytes (sync_points ?e)))"
    using written by (simp add: trace_bytes_def)
  moreover have "length (the ?out) =
             728 + 98 * length (fast_samples ?e) + 104 * length (medium_samples ?e)
             + 72 * length (slow_samples ?e) + 16 * length (sync_points ?e)"
    using written by (simp add: length_trace_bytes)
  moreover have "u64_at 56 (the ?out) = num_fast_samples ?h"
    "u64_at 64 (the ?out) = num_medium_samples ?h"
    "u64_at 72 (the ?out) = num_slow_samples ?h"
    "u64_at 80 (the ?out) = num_sync_points ?h"
    using written by (simp_all add: trace_bytes_def header_counts_at)
  ultimately show ?thesis
    by (simp only: counts)
qed

text \<open>The full run, with eleven fast samples and one medium, slow and sync record.\<close>

lemma trace_file_undisturbed_full_run:
  "ctl at_write = WriteFile
   \<and> creatable (wld at_write) (output_path (eng at_write))
   \<and> unat (u64_at 56 (the (files (wld (stop_step (stop_step at_write))) (output_path (eng at_write)))))
       = 11
   \<and> unat (u64_at 64 (the (files (wld (stop_step (stop_step at_write))) (output_path (eng at_write)))))
       = 1
   \<and> unat (u64_at 72 (the (files (wld (stop_step (stop_step at_write))) (output_path (eng at_write)))))
       = 1
   \<and> unat (u64_at 80 (the (files (wld (stop_step (stop_step at_write))) (output_path (eng at_write)))))
       = 1
   \<and> length (the (files (wld (stop_step (stop_step at_write))) (output_path (eng at_write)))) = 1998"
proof -
  have c: "ctl at_write = WriteFile" by code_simp
  have p: "creatable (wld at_write) (output_path (eng at_write))" by code_simp
  have f: "length (fast_samples (eng at_write)) = 11" by code_simp
  have m: "length (medium_samples (eng at_write)) = 1" by code_simp
  have sl: "length (slow_samples (eng at_write)) = 1" by code_simp
  have k: "length (sync_points (eng at_write)) = 1" by code_simp
  note t = trace_file_undisturbed [of at_write, OF c p]
  show ?thesis
    using c p t [THEN conjunct2] by (simp add: f m sl k)
qed

text \<open>
  Claim C1. For every run, the trace file written at stop is the 728-byte header
  followed by \<open>num_fast_samples\<close> fast, \<open>num_medium_samples\<close> medium and
  \<open>num_slow_samples\<close> slow records and \<open>num_sync_points\<close> sync points, each header
  count being the size of its buffer at write time, so that the file size is
  \<open>728 + 98 F + 104 M + 72 S + 16 K\<close> for the header counts. \<open>write_file\<close> reads
  \<open>sync_points_\<close> for the header count and again for its last \<open>fwrite\<close>, and does not
  hold \<open>sync_mtx_\<close>, which \<open>sync()\<close> holds when it appends. In \<open>race_run\<close> two fast
  samples are taken, \<open>sync()\<close> is called once and \<open>stop()\<close> is called; a second
  \<open>sync()\<close> runs while \<open>stop()\<close> is inside \<open>write_file\<close>, after the header has been
  built. The file then has 956 bytes: the counts in its header (the fields at the
  offsets 56, 64, 72 and 80) are 2, 0, 0 and 1, and behind the header and the two
  fast samples, from offset 924, come two sync points, where the header count
  and the size identity (940 bytes) allow one. With the second \<open>sync()\<close> after
  \<open>stop()\<close> has returned (\<open>quiet_run\<close>), the same calls give a file of 940 bytes
  whose header count is 1.
\<close>

theorem write_file_races_with_sync:
  "ctl (exec demo_platform race_run demo_sys) = Returned
   \<and> length (fast_samples (eng (exec demo_platform race_run demo_sys))) = 2
   \<and> medium_samples (eng (exec demo_platform race_run demo_sys)) = []
   \<and> slow_samples (eng (exec demo_platform race_run demo_sys)) = []
   \<and> sync_points (eng (exec demo_platform race_run demo_sys))
       = [\<lparr>sync_id = 1, fast_sample_idx = 2\<rparr>, \<lparr>sync_id = 2, fast_sample_idx = 2\<rparr>]
   \<and> u64_at 56 (the (files (wld (exec demo_platform race_run demo_sys)) ''/tmp/trace.bin'')) = 2
   \<and> u64_at 64 (the (files (wld (exec demo_platform race_run demo_sys)) ''/tmp/trace.bin'')) = 0
   \<and> u64_at 72 (the (files (wld (exec demo_platform race_run demo_sys)) ''/tmp/trace.bin'')) = 0
   \<and> u64_at 80 (the (files (wld (exec demo_platform race_run demo_sys)) ''/tmp/trace.bin'')) = 1
   \<and> length (the (files (wld (exec demo_platform race_run demo_sys)) ''/tmp/trace.bin'')) = 956
   \<and> drop 924 (the (files (wld (exec demo_platform race_run demo_sys)) ''/tmp/trace.bin''))
       = SyncPoint_bytes \<lparr>sync_id = 1, fast_sample_idx = 2\<rparr>
         @ SyncPoint_bytes \<lparr>sync_id = 2, fast_sample_idx = 2\<rparr>
   \<and> ctl (exec demo_platform quiet_run demo_sys) = Returned
   \<and> sync_points (eng (exec demo_platform quiet_run demo_sys))
       = [\<lparr>sync_id = 1, fast_sample_idx = 2\<rparr>, \<lparr>sync_id = 2, fast_sample_idx = 2\<rparr>]
   \<and> u64_at 80 (the (files (wld (exec demo_platform quiet_run demo_sys)) ''/tmp/trace.bin'')) = 1
   \<and> length (the (files (wld (exec demo_platform quiet_run demo_sys)) ''/tmp/trace.bin'')) = 940"
  by code_simp

subsection \<open>Stopping\<close>

lemma try_close_world:
  "files (fst (try_close w fd)) = files w"
  "creatable (fst (try_close w fd)) = creatable w"
  "readable (fst (try_close w fd)) = readable w"
  by (simp_all add: try_close_def sys_close_def)

lemma close_each_world:
  "files (close_each w fds) = files w"
  "creatable (close_each w fds) = creatable w"
  "readable (close_each w fds) = readable w"
  unfolding close_each_def
  by (induction fds arbitrary: w) (simp_all add: try_close_world)

lemma close_fds_world:
  "files (fst (close_fds w e)) = files w"
  "creatable (fst (close_fds w e)) = creatable w"
  "readable (fst (close_fds w e)) = readable w"
  by (simp_all add: close_fds_def close_each_world try_close_def sys_close_def split: prod.splits)

lemma close_fds_config:
  "output_path (snd (close_fds w e)) = output_path e"
  "board (snd (close_fds w e)) = board e"
  "config (snd (close_fds w e)) = config e"
  by (simp_all add: close_fds_def split: prod.splits)

lemma build_header_cong:
  assumes "board e' = board e" "config e' = config e" "fd_emc e' = fd_emc e"
    "length (fast_samples e') = length (fast_samples e)"
    "length (medium_samples e') = length (medium_samples e)"
    "length (slow_samples e') = length (slow_samples e)"
    "length (sync_points e') = length (sync_points e)"
  shows "build_header e' = build_header e"
  using assms by (simp add: build_header_def)

text \<open>\<open>stop()\<close> on an engine with no joinable thread, run without interruption.\<close>

lemma stop_alone_no_threads:
  assumes "fast_thread (eng s) = None" "medium_thread (eng s) = None"
    "slow_thread (eng s) = None" "\<not> in_stop (ctl s)"
  shows "exec pl stop_alone s =
     (case write_file (wld s) ((eng s)\<lparr>running := False\<rparr>) of
        Inl err \<Rightarrow> s\<lparr>eng := (eng s)\<lparr>running := False\<rparr>, ctl := Threw err\<rparr>
      | Inr w \<Rightarrow> \<lparr>wld = fst (close_fds w ((eng s)\<lparr>running := False\<rparr>)),
                  eng = snd (close_fds w ((eng s)\<lparr>running := False\<rparr>)),
                  ctl = Returned\<rparr>)"
proof (cases "creatable (wld s) (output_path (eng s))")
  case True
  then show ?thesis
    using assms
    by (cases s)
       (simp add: exec_def stop_alone_def stop_step_def write_file_def write_file_head_def
          split: prod.splits)
next
  case False
  then show ?thesis
    using assms
    by (cases s)
       (simp add: exec_def stop_alone_def stop_step_def write_file_def write_file_head_def)
qed


lemma run_fast_frame:
  "running (run_fast pl inp e) = running e"
  "medium_thread (run_fast pl inp e) = medium_thread e"
  "slow_thread (run_fast pl inp e) = slow_thread e"
  "fast_thread e = None \<Longrightarrow> fast_thread (run_fast pl inp e) = None"
  by (simp_all add: run_fast_def fast_sample_fields split: option.splits fast_pc.splits)

lemma run_medium_frame:
  "running (run_medium pl inp e) = running e"
  "fast_thread (run_medium pl inp e) = fast_thread e"
  "slow_thread (run_medium pl inp e) = slow_thread e"
  "warmed_up (run_medium pl inp e) = warmed_up e"
  "medium_thread e = None \<Longrightarrow> medium_thread (run_medium pl inp e) = None"
  by (simp_all add: run_medium_def medium_sample_fields split: option.splits tier_pc.splits)

lemma run_slow_frame:
  "running (run_slow pl inp e) = running e"
  "fast_thread (run_slow pl inp e) = fast_thread e"
  "medium_thread (run_slow pl inp e) = medium_thread e"
  "warmed_up (run_slow pl inp e) = warmed_up e"
  "slow_thread e = None \<Longrightarrow> slow_thread (run_slow pl inp e) = None"
  by (simp_all add: run_slow_def slow_sample_fields split: option.splits tier_pc.splits)

lemma sync_frame:
  "running (snd (sync e)) = running e"
  "warmed_up (snd (sync e)) = warmed_up e"
  "fast_thread (snd (sync e)) = fast_thread e"
  "medium_thread (snd (sync e)) = medium_thread e"
  "slow_thread (snd (sync e)) = slow_thread e"
  by (simp_all add: sync_def Let_def)

lemma stop_step_CloseFds:
  "ctl s = CloseFds \<Longrightarrow>
     stop_step s = s\<lparr>wld := fst (close_fds (wld s) (eng s)),
                      eng := snd (close_fds (wld s) (eng s)), ctl := Returned\<rparr>"
  by (simp add: stop_step_def split: prod.splits)

lemma ctl_inv_stop_step: "ctl_inv s \<Longrightarrow> ctl_inv (stop_step s)"
proof (cases "ctl s")
  case CloseFds
  assume "ctl_inv s"
  then show ?thesis using CloseFds
    by (simp add: stop_step_CloseFds ctl_inv_def in_stop_iff close_fds_fields)
qed (auto simp: ctl_inv_def stop_step_def in_stop_iff split: option.splits sum.splits)

lemma start_Inl: "start t w e = Inl err \<Longrightarrow> running e"
  by (simp add: start_def Let_def split: if_splits prod.splits)

lemma ctl_inv_step: "ctl_inv s \<Longrightarrow> ctl_inv (step pl ev s)"
proof (cases ev)
  case (CallStart t)
  assume inv: "ctl_inv s"
  show ?thesis
  proof (cases "in_stop (ctl s)")
    case True
    then show ?thesis using inv CallStart by simp
  next
    case False
    show ?thesis
    proof (cases "start t (wld s) (eng s)")
      case (Inl err)
      then have "running (eng s)" by (rule start_Inl)
      then show ?thesis using Inl False CallStart
        by (simp add: ctl_inv_def in_stop_iff)
    next
      case (Inr r)
      obtain w' e' where r: "r = (w', e')" by (cases r)
      have "running e'" using Inr r by (auto dest: start_fields(1))
      then show ?thesis using Inr r False CallStart
        by (simp add: ctl_inv_def in_stop_iff)
    qed
  qed
next
  case CallStop
  assume "ctl_inv s"
  then show ?thesis using CallStop by (simp add: ctl_inv_def in_stop_iff)
next
  case Ctl
  assume "ctl_inv s"
  then show ?thesis using Ctl by (simp add: ctl_inv_stop_step)
next
  case CallSync
  assume "ctl_inv s"
  then show ?thesis using CallSync unfolding ctl_inv_def by (simp add: sync_frame)
next
  case (Fast inp)
  assume "ctl_inv s"
  then show ?thesis using Fast unfolding ctl_inv_def by (simp add: run_fast_frame)
next
  case (Medium inp)
  assume "ctl_inv s"
  then show ?thesis using Medium unfolding ctl_inv_def by (simp add: run_medium_frame)
next
  case (Slow inp)
  assume "ctl_inv s"
  then show ?thesis using Slow unfolding ctl_inv_def by (simp add: run_slow_frame)
qed

lemma ctl_inv_exec: "ctl_inv s \<Longrightarrow> ctl_inv (exec pl evs s)"
  unfolding exec_def by (induction evs arbitrary: s) (simp_all add: ctl_inv_step)

lemma ctl_inv_reachable: "boot w path b c = Some s0 \<Longrightarrow> ctl_inv (exec pl evs s0)"
  by (rule ctl_inv_exec) (simp add: boot_eng ctl_inv_def Engine_init_def in_stop_iff)


lemma fresh_inv_stop_step: "fresh_inv s \<Longrightarrow> fresh_inv (stop_step s)"
proof (cases "ctl s")
  case CloseFds
  assume "fresh_inv s"
  then show ?thesis using CloseFds
    by (simp add: stop_step_CloseFds fresh_inv_def close_fds_fields)
qed (auto simp: fresh_inv_def stop_step_def split: option.splits sum.splits)

lemma stop_step_sync_points: "sync_points (eng (stop_step s)) = sync_points (eng s)"
proof (cases "ctl s")
  case CloseFds
  then show ?thesis by (simp add: stop_step_CloseFds close_fds_fields)
qed (auto simp: stop_step_def split: option.splits sum.splits)

lemma fresh_inv_step:
  "fresh_inv s \<Longrightarrow> \<not> is_CallStart ev \<Longrightarrow>
     fresh_inv (step pl ev s)
     \<and> length (sync_points (eng (step pl ev s)))
         = length (sync_points (eng s)) + (if is_CallSync ev then 1 else 0)"
proof (cases ev)
  case Ctl
  assume "fresh_inv s"
  then show ?thesis using Ctl by (simp add: fresh_inv_stop_step stop_step_sync_points)
qed (simp_all add: fresh_inv_def sync_def Let_def run_fast_def run_medium_def run_slow_def)

lemma fresh_inv_exec:
  "fresh_inv s \<Longrightarrow> \<forall>ev \<in> set evs. \<not> is_CallStart ev \<Longrightarrow>
     fresh_inv (exec pl evs s)
     \<and> length (sync_points (eng (exec pl evs s)))
         = length (sync_points (eng s)) + length (filter is_CallSync evs)"
  unfolding exec_def
proof (induction evs arbitrary: s)
  case Nil
  then show ?case by simp
next
  case (Cons ev evs)
  from Cons.prems have st: "fresh_inv (step pl ev s)"
    "length (sync_points (eng (step pl ev s)))
         = length (sync_points (eng s)) + (if is_CallSync ev then 1 else 0)"
    using fresh_inv_step [of s ev pl] by simp_all
  from Cons.IH [OF st(1)] Cons.prems(2) st(2) show ?case by simp
qed

lemma never_started:
  assumes "boot w path b c = Some s0" and "\<forall>ev \<in> set evs. \<not> is_CallStart ev"
  shows "fresh_inv (exec pl evs s0)"
    and "length (sync_points (eng (exec pl evs s0))) = length (filter is_CallSync evs)"
  using fresh_inv_exec [of s0 evs pl] assms boot_eng [OF assms(1)]
  by (simp_all add: fresh_inv_def Engine_init_def)

lemma trace_bytes_fresh:
  "fast_samples e = [] \<Longrightarrow> medium_samples e = [] \<Longrightarrow> slow_samples e = [] \<Longrightarrow>
   trace_bytes e = FileHeader_bytes (build_header e) @ concat (map SyncPoint_bytes (sync_points e))"
  by (simp add: trace_bytes_def)

lemma trace_bytes_stop_flag: "trace_bytes (e\<lparr>running := False\<rparr>) = trace_bytes e"
  by (simp add: trace_bytes_def build_header_def)

lemma stop_alone_result:
  assumes "fast_thread (eng s) = None" "medium_thread (eng s) = None"
    "slow_thread (eng s) = None" "\<not> in_stop (ctl s)"
  shows "ctl (exec pl stop_alone s)
           = (if creatable (wld s) (output_path (eng s)) then Returned else Threw IoOpenFailed)"
    and "creatable (wld s) (output_path (eng s)) \<Longrightarrow>
           files (wld (exec pl stop_alone s)) (output_path (eng s)) = Some (trace_bytes (eng s))"
    and "fast_thread (eng (exec pl stop_alone s)) = None"
    and "medium_thread (eng (exec pl stop_alone s)) = None"
    and "slow_thread (eng (exec pl stop_alone s)) = None"
proof -
  let ?e = "(eng s)\<lparr>running := False\<rparr>"
  have p: "output_path ?e = output_path (eng s)" by simp
  show "ctl (exec pl stop_alone s)
           = (if creatable (wld s) (output_path (eng s)) then Returned else Threw IoOpenFailed)"
    using write_file_Inr [of "wld s" ?e] write_file_Inl [of "wld s" ?e]
    by (simp add: stop_alone_no_threads [OF assms])
  show "files (wld (exec pl stop_alone s)) (output_path (eng s)) = Some (trace_bytes (eng s))"
    if "creatable (wld s) (output_path (eng s))"
    using write_file_Inr [of "wld s" ?e] that
    by (simp add: stop_alone_no_threads [OF assms] close_fds_world trace_bytes_stop_flag)
  show "fast_thread (eng (exec pl stop_alone s)) = None"
    "medium_thread (eng (exec pl stop_alone s)) = None"
    "slow_thread (eng (exec pl stop_alone s)) = None"
    using assms write_file_Inr [of "wld s" ?e] write_file_Inl [of "wld s" ?e]
    by (cases "creatable (wld s) (output_path (eng s))";
        simp add: stop_alone_no_threads [OF assms] close_fds_fields)+
qed

text \<open>
  Claim C10. \<open>stop()\<close> on an engine that is not running (never started, or
  stopped before) does not fail for not running: it joins no thread and calls the
  writer, and returns when the output path can be created. The claim goes on to
  say that a never-started engine's file is exactly the 728-byte header with all
  four counts zero. That holds when \<open>sync\<close> has not been called; in general the
  header, with the three sample counts zero, is followed by one 16-byte record per
  earlier call of \<open>sync\<close>, and \<open>num_sync_points\<close> counts these calls.
\<close>

theorem stop_when_not_running:
  assumes "boot w path b c = Some s0" and "s = exec pl evs s0"
    and "\<not> running (eng s)" and "\<not> in_stop (ctl s)"
    and "creatable (wld s) (output_path (eng s))"
  shows "fast_thread (eng s) = None \<and> medium_thread (eng s) = None \<and> slow_thread (eng s) = None
       \<and> ctl (exec pl stop_alone s) = Returned
       \<and> files (wld (exec pl stop_alone s)) (output_path (eng s)) = Some (trace_bytes (eng s))
       \<and> ((\<forall>ev \<in> set evs. \<not> is_CallStart ev) \<longrightarrow>
            trace_bytes (eng s)
              = FileHeader_bytes (build_header (eng s))
                @ concat (map SyncPoint_bytes (sync_points (eng s)))
          \<and> length (trace_bytes (eng s)) = 728 + 16 * length (filter is_CallSync evs)
          \<and> num_fast_samples (build_header (eng s)) = 0
          \<and> num_medium_samples (build_header (eng s)) = 0
          \<and> num_slow_samples (build_header (eng s)) = 0
          \<and> num_sync_points (build_header (eng s)) = word_of_nat (length (filter is_CallSync evs)))"
proof -
  have "ctl_inv s" using assms(1,2) by (simp add: ctl_inv_reachable)
  then have thr: "fast_thread (eng s) = None" "medium_thread (eng s) = None"
    "slow_thread (eng s) = None"
    using assms(3,4) by (simp_all add: ctl_inv_def)
  note res = stop_alone_result [OF thr assms(4), of pl]
  have fresh: "trace_bytes (eng s)
              = FileHeader_bytes (build_header (eng s))
                @ concat (map SyncPoint_bytes (sync_points (eng s)))
          \<and> length (trace_bytes (eng s)) = 728 + 16 * length (filter is_CallSync evs)
          \<and> num_fast_samples (build_header (eng s)) = 0
          \<and> num_medium_samples (build_header (eng s)) = 0
          \<and> num_slow_samples (build_header (eng s)) = 0
          \<and> num_sync_points (build_header (eng s)) = word_of_nat (length (filter is_CallSync evs))"
    if "\<forall>ev \<in> set evs. \<not> is_CallStart ev"
  proof -
    from never_started [OF assms(1) that, of pl]
    have f: "fresh_inv s" and k: "length (sync_points (eng s)) = length (filter is_CallSync evs)"
      unfolding assms(2) by simp_all
    from f have e: "fast_samples (eng s) = []" "medium_samples (eng s) = []"
      "slow_samples (eng s) = []"
      by (simp_all add: fresh_inv_def)
    have "length (trace_bytes (eng s)) = 728 + 16 * length (filter is_CallSync evs)"
      using e k by (simp add: length_trace_bytes)
    moreover have "trace_bytes (eng s)
              = FileHeader_bytes (build_header (eng s))
                @ concat (map SyncPoint_bytes (sync_points (eng s)))"
      using e by (rule trace_bytes_fresh)
    moreover have "num_fast_samples (build_header (eng s)) = 0"
      "num_medium_samples (build_header (eng s)) = 0"
      "num_slow_samples (build_header (eng s)) = 0"
      "num_sync_points (build_header (eng s)) = word_of_nat (length (filter is_CallSync evs))"
      using e k by (simp_all add: build_header_def)
    ultimately show ?thesis by simp
  qed
  have fin: "ctl (exec pl stop_alone s) = Returned"
    "files (wld (exec pl stop_alone s)) (output_path (eng s)) = Some (trace_bytes (eng s))"
    using res(1,2) assms(5) by simp_all
  show ?thesis
    using thr fin fresh by blast
qed

theorem stop_when_not_running_witness:
  "boot demo_world ''/tmp/trace.bin'' demo_board default_EngineConfig = Some demo_sys
   \<and> \<not> running (eng demo_sys)
   \<and> \<not> in_stop (ctl demo_sys)
   \<and> creatable (wld demo_sys) (output_path (eng demo_sys))
   \<and> ctl (exec demo_platform stop_alone demo_sys) = Returned
   \<and> files (wld (exec demo_platform stop_alone demo_sys)) ''/tmp/trace.bin''
       = Some (FileHeader_bytes (build_header (eng demo_sys)))
   \<and> length (FileHeader_bytes (build_header (eng demo_sys))) = 728
   \<and> num_sync_points (build_header (eng demo_sys)) = 0
   \<and> \<not> running (eng (exec demo_platform (short_run @ [Ctl, Ctl, Ctl]) demo_sys))
   \<and> ctl (exec demo_platform (short_run @ [Ctl, Ctl, Ctl]) demo_sys) = Returned
   \<and> ctl (exec demo_platform stop_alone (exec demo_platform (short_run @ [Ctl, Ctl, Ctl]) demo_sys))
       = Returned"
proof -
  let ?s1 = "exec demo_platform (short_run @ [Ctl, Ctl, Ctl]) demo_sys"
  have b: "boot demo_world ''/tmp/trace.bin'' demo_board default_EngineConfig = Some demo_sys"
    by (simp add: boot_def Engine_new_def demo_sys_def demo_board_def size_as_int_def
          MAX_CPU_CORES_def MAX_POWER_RAILS_def MAX_THERMAL_ZONES_def)
  have x: "demo_sys = exec demo_platform [] demo_sys" by (simp add: exec_def)
  have r: "\<not> running (eng demo_sys)" by code_simp
  have i: "\<not> in_stop (ctl demo_sys)" by code_simp
  have c: "creatable (wld demo_sys) (output_path (eng demo_sys))" by code_simp
  have p: "output_path (eng demo_sys) = ''/tmp/trace.bin''" by code_simp
  have k: "sync_points (eng demo_sys) = []" by code_simp
  have r1: "\<not> running (eng ?s1)" by code_simp
  have i1: "\<not> in_stop (ctl ?s1)" by code_simp
  have c1: "creatable (wld ?s1) (output_path (eng ?s1))" by code_simp
  have t1: "ctl ?s1 = Returned" by code_simp
  show ?thesis
    using stop_when_not_running [OF b x r i c] stop_when_not_running [OF b refl r1 i1 c1]
      b r i c p k r1 t1
    by (simp add: sizeof_FileHeader)
qed

text \<open>
  The claim as stated fails on a never-started engine on which \<open>sync\<close> was called
  once: the file has 744 bytes and \<open>num_sync_points\<close> is 1.
\<close>

theorem stop_after_sync_counterexample:
  "ctl (exec demo_platform (CallSync # stop_alone) demo_sys) = Returned
   \<and> length (the (files (wld (exec demo_platform (CallSync # stop_alone) demo_sys)) ''/tmp/trace.bin'')) = 744
   \<and> num_sync_points (build_header (eng (exec demo_platform [CallSync] demo_sys))) = 1"
  by code_simp

text \<open>
  Claim C6. After \<open>stop()\<close> completes or throws, the three tier threads have been
  joined and every descriptor opened at \<open>start()\<close> has been closed, also when the
  writer cannot open the output path. The joins do come first, but
  \<open>close_fds()\<close> is the statement after \<open>write_file()\<close>: when the writer
  throws it is never reached. On the run below, with an output path that cannot
  be created, \<open>stop\<close> throws, the threads are joined, and the descriptors 3 and 4
  opened at \<open>start\<close> stay in the members and in the descriptor table, whatever the
  caller does next inside this call; with a path that can be created the same run
  closes them.
\<close>

theorem stop_throw_leaves_descriptors_open:
  "ctl (exec demo_platform (short_run @ [Ctl]) ro_sys) = Threw IoOpenFailed
   \<and> fast_thread (eng (exec demo_platform (short_run @ [Ctl]) ro_sys)) = None
   \<and> medium_thread (eng (exec demo_platform (short_run @ [Ctl]) ro_sys)) = None
   \<and> slow_thread (eng (exec demo_platform (short_run @ [Ctl]) ro_sys)) = None
   \<and> fd_gpu_load (eng (exec demo_platform (short_run @ [Ctl]) ro_sys)) = 3
   \<and> fd_proc_stat (eng (exec demo_platform (short_run @ [Ctl]) ro_sys)) = 4
   \<and> fd_table (wld (exec demo_platform (short_run @ [Ctl]) ro_sys)) = [4, 3, 0, 1, 2]
   \<and> fd_table (wld (exec demo_platform (short_run @ [Ctl, Ctl, Ctl]) ro_sys)) = [4, 3, 0, 1, 2]
   \<and> ctl (exec demo_platform (short_run @ [Ctl, Ctl, Ctl]) demo_sys) = Returned
   \<and> fd_table (wld (exec demo_platform (short_run @ [Ctl, Ctl, Ctl]) demo_sys)) = [0, 1, 2]"
  by code_simp

subsection \<open>Sync points\<close>

lemma sync_inv_frame:
  assumes "sync_inv e" and "sync_points e' = sync_points e"
    and "length (fast_samples e') = length (fast_samples e)" and "fast_count e' = fast_count e"
  shows "sync_inv e'"
  using assms by (simp add: sync_inv_def)

lemma u64_of_nat_mono: "m \<le> n \<Longrightarrow> n < 2 ^ 64 \<Longrightarrow> (word_of_nat m :: u64) \<le> word_of_nat n"
  by (simp add: word_le_nat_alt unat_of_nat)

lemma sync_inv_fast_sample:
  assumes "sync_inv e" and "fast_count e = word_of_nat (length (fast_samples e))"
  shows "sync_inv (fast_sample pl inp e)"
proof -
  let ?L = "length (fast_samples e)"
  have "fast_sample_idx sp \<le> fast_count e + 1"
    if "Suc ?L < 2 ^ 64" and "sp \<in> set (sync_points e)" for sp
  proof -
    have "fast_sample_idx sp \<le> word_of_nat ?L"
      using assms that by (simp add: sync_inv_def)
    also have "\<dots> \<le> (word_of_nat (Suc ?L) :: u64)"
      using that(1) by (intro u64_of_nat_mono) simp_all
    finally show ?thesis using assms(2) by (simp add: add.commute)
  qed
  then show ?thesis
    using assms(1) by (simp add: sync_inv_def fast_sample_fields)
qed

lemma sync_inv_sync: "sync_inv e \<Longrightarrow> sync_inv (snd (sync e))"
  by (auto simp: sync_inv_def sync_def Let_def sorted_append)

lemma sync_inv_pc:
  "sync_inv e \<Longrightarrow> sync_inv (e\<lparr>fast_thread := x\<rparr>)"
  "sync_inv e \<Longrightarrow> sync_inv (e\<lparr>medium_thread := y\<rparr>)"
  "sync_inv e \<Longrightarrow> sync_inv (e\<lparr>slow_thread := y\<rparr>)"
  "sync_inv e \<Longrightarrow> sync_inv (e\<lparr>warmed_up := z, fast_thread := x\<rparr>)"
  "sync_inv e \<Longrightarrow> sync_inv (e\<lparr>running := z\<rparr>)"
  by (simp_all add: sync_inv_def)

lemma sync_inv_run_fast:
  assumes "run_inv e" and "sync_inv e"
  shows "sync_inv (run_fast pl inp e)"
proof -
  have c: "fast_count e = word_of_nat (length (fast_samples e))"
    using assms(1) by (simp add: run_inv_def)
  have fs: "sync_inv (fast_sample pl inp e)"
    using assms(2) c by (rule sync_inv_fast_sample)
  show ?thesis
    unfolding run_fast_def
    using fs assms(2)
    by (simp add: sync_inv_pc split: option.splits fast_pc.splits)
qed

lemma sync_inv_medium_sample: "sync_inv e \<Longrightarrow> sync_inv (medium_sample pl inp e)"
  by (erule sync_inv_frame) (simp_all add: medium_sample_fields)

lemma sync_inv_slow_sample: "sync_inv e \<Longrightarrow> sync_inv (slow_sample pl inp e)"
  by (erule sync_inv_frame) (simp_all add: slow_sample_fields)

lemma sync_inv_run_medium: "sync_inv e \<Longrightarrow> sync_inv (run_medium pl inp e)"
  unfolding run_medium_def
  by (simp add: sync_inv_pc sync_inv_medium_sample split: option.splits tier_pc.splits)

lemma sync_inv_run_slow: "sync_inv e \<Longrightarrow> sync_inv (run_slow pl inp e)"
  unfolding run_slow_def
  by (simp add: sync_inv_pc sync_inv_slow_sample split: option.splits tier_pc.splits)

lemma stop_step_frame:
  "sync_points (eng (stop_step s)) = sync_points (eng s)
   \<and> fast_samples (eng (stop_step s)) = fast_samples (eng s)
   \<and> fast_count (eng (stop_step s)) = fast_count (eng s)
   \<and> running (eng (stop_step s)) = running (eng s)
   \<and> warmed_up (eng (stop_step s)) = warmed_up (eng s)"
proof (cases "ctl s")
  case CloseFds
  then show ?thesis by (simp add: stop_step_CloseFds close_fds_fields)
qed (simp_all add: stop_step_def split: option.splits sum.splits)

lemma sync_inv_step:
  assumes "run_inv (eng s)" and "sync_inv (eng s)"
  shows "sync_inv (eng (step pl ev s))"
proof (cases ev)
  case (CallStart t)
  show ?thesis
  proof (cases "start t (wld s) (eng s)")
    case (Inl err)
    then show ?thesis using CallStart assms(2) by simp
  next
    case (Inr r)
    obtain w' e' where r: "r = (w', e')" by (cases r)
    have "sync_inv e'"
      using Inr r by (simp add: sync_inv_def start_fields)
    then show ?thesis using CallStart Inr r assms(2) by simp
  qed
next
  case CallStop
  then show ?thesis using assms(2) by (simp add: sync_inv_pc)
next
  case Ctl
  have "sync_inv (eng (stop_step s))"
    using assms(2) by (rule sync_inv_frame) (simp_all add: stop_step_frame)
  then show ?thesis using Ctl by simp
next
  case CallSync
  then show ?thesis using assms(2) by (simp add: sync_inv_sync)
next
  case (Fast inp)
  then show ?thesis using assms by (simp add: sync_inv_run_fast)
next
  case (Medium inp)
  then show ?thesis using assms by (simp add: sync_inv_run_medium)
next
  case (Slow inp)
  then show ?thesis using assms by (simp add: sync_inv_run_slow)
qed

lemma both_inv_exec:
  "run_inv (eng s) \<Longrightarrow> sync_inv (eng s) \<Longrightarrow>
     run_inv (eng (exec pl evs s)) \<and> sync_inv (eng (exec pl evs s))"
  unfolding exec_def
  by (induction evs arbitrary: s) (simp_all add: run_inv_step sync_inv_step)

lemma sync_inv_reachable:
  assumes "boot w path b c = Some s0"
  shows "sync_inv (eng (exec pl evs s0))"
proof -
  have e0: "eng s0 = Engine_init path b c" using boot_eng [OF assms] by simp
  have "run_inv (eng s0)" "sync_inv (eng s0)"
    unfolding e0 by (simp_all add: run_inv_init) (simp add: sync_inv_def Engine_init_def)
  then show ?thesis using both_inv_exec by blast
qed


lemma sync_ids_nat:
  assumes "map sync_id sps = map word_of_nat [1..<Suc (length sps)]" and "length sps < 2 ^ 64"
  shows "map (unat \<circ> sync_id) sps = [1..<Suc (length sps)]"
proof -
  have "map (unat \<circ> sync_id) sps = map unat (map sync_id sps)" by simp
  also have "\<dots> = map (\<lambda>n. unat (word_of_nat n :: u64)) [1..<Suc (length sps)]"
    unfolding assms(1) by simp
  also have "\<dots> = map (\<lambda>n. n) [1..<Suc (length sps)]"
    using assms(2) by (intro map_cong refl) (auto simp: unat_of_nat)
  finally show ?thesis by simp
qed

text \<open>
  Claim C2. In every run, each call of \<open>sync()\<close> returns the number of sync points
  already recorded plus one and records the value \<open>fast_count\<close> has at the call;
  so the recorded ids are 1, 2, ... in insertion order, and the recorded indices
  are non-decreasing. The state \<open>e\<close> is any state the engine reaches; a call of
  \<open>sync\<close> and an iteration of a tier thread are single steps (the mutex and the
  atomic counter), and so is \<open>start\<close>. The ids are read as numbers while fewer than
  \<open>2^64\<close> points are recorded, and the indices are ordered while the fast buffer
  holds fewer than \<open>2^64\<close> samples (the 64-bit counter does not wrap).
\<close>

theorem sync_points_dense_monotone:
  assumes "boot w path b c = Some s0" and "e = eng (exec pl evs s0)"
  shows "fst (sync e) = word_of_nat (length (sync_points e)) + 1
       \<and> sync_points (snd (sync e))
           = sync_points e @ [\<lparr>sync_id = word_of_nat (length (sync_points e)) + 1,
                                fast_sample_idx = fast_count e\<rparr>]
       \<and> fast_count e = word_of_nat (length (fast_samples e))
       \<and> map sync_id (sync_points e) = map word_of_nat [1..<Suc (length (sync_points e))]
       \<and> (length (sync_points e) < 2 ^ 64 \<longrightarrow>
            map (unat \<circ> sync_id) (sync_points e) = [1..<Suc (length (sync_points e))])
       \<and> (length (fast_samples e) < 2 ^ 64 \<longrightarrow> sorted (map fast_sample_idx (sync_points e)))"
proof -
  have r: "run_inv e" and s: "sync_inv e"
    unfolding assms(2) using assms(1) by (simp_all add: run_inv_reachable sync_inv_reachable)
  have ids: "map sync_id (sync_points e) = map word_of_nat [1..<Suc (length (sync_points e))]"
    using s by (simp add: sync_inv_def)
  have "fst (sync e) = word_of_nat (length (sync_points e)) + 1"
    "sync_points (snd (sync e))
           = sync_points e @ [\<lparr>sync_id = word_of_nat (length (sync_points e)) + 1,
                                fast_sample_idx = fast_count e\<rparr>]"
    by (simp_all add: sync_def Let_def)
  moreover have "fast_count e = word_of_nat (length (fast_samples e))"
    using r by (simp add: run_inv_def)
  moreover have "length (fast_samples e) < 2 ^ 64 \<longrightarrow> sorted (map fast_sample_idx (sync_points e))"
    using s by (simp add: sync_inv_def)
  moreover have "length (sync_points e) < 2 ^ 64 \<longrightarrow>
            map (unat \<circ> sync_id) (sync_points e) = [1..<Suc (length (sync_points e))]"
    using sync_ids_nat [OF ids] by blast
  ultimately show ?thesis using ids by blast
qed

theorem sync_points_dense_monotone_witness:
  "boot demo_world ''/tmp/trace.bin'' demo_board default_EngineConfig = Some demo_sys
   \<and> fst (sync (eng (exec demo_platform sync_run demo_sys))) = 4
   \<and> length (sync_points (eng (exec demo_platform sync_run demo_sys))) < 2 ^ 64
   \<and> length (fast_samples (eng (exec demo_platform sync_run demo_sys))) < 2 ^ 64
   \<and> map (unat \<circ> sync_id) (sync_points (eng (exec demo_platform sync_run demo_sys))) = [1, 2, 3]
   \<and> map fast_sample_idx (sync_points (eng (exec demo_platform sync_run demo_sys))) = [1, 3, 3]
   \<and> sorted (map fast_sample_idx (sync_points (eng (exec demo_platform sync_run demo_sys))))"
proof -
  let ?e = "eng (exec demo_platform sync_run demo_sys)"
  have b: "boot demo_world ''/tmp/trace.bin'' demo_board default_EngineConfig = Some demo_sys"
    by (simp add: boot_def Engine_new_def demo_sys_def demo_board_def size_as_int_def
          MAX_CPU_CORES_def MAX_POWER_RAILS_def MAX_THERMAL_ZONES_def)
  have k: "length (sync_points ?e) = 3" by code_simp
  have f: "length (fast_samples ?e) = 3" by code_simp
  have i: "map fast_sample_idx (sync_points ?e) = [1, 3, 3]" by code_simp
  have u: "[1..<Suc 3] = [1, 2, 3]" by code_simp
  show ?thesis
    using sync_points_dense_monotone [OF b refl, of demo_platform sync_run] b k f i u
    by simp
qed

subsection \<open>Warmup\<close>

text \<open>
  Claim C5. In a run that is not stopped during warmup the fast thread appends
  exactly 10 primer samples, each bumping \<open>fast_count\<close>, before it sets
  \<open>warmed_up\<close>; so when \<open>wait_for_warmup()\<close> returns during such a run,
  \<open>sample_count()\<close> is at least 10; and the medium and slow loops take no sample
  before the barrier releases. In every state the engine reaches: inside the
  primer loop the barrier is closed and the buffer holds as many samples as the
  loop counter says; between the loop and the store to \<open>warmed_up_\<close>, with
  \<open>running_\<close> still true, it holds exactly 10; with the barrier open and
  \<open>running_\<close> true it holds at least 10, and \<open>sample_count()\<close> is its size; with
  the barrier closed the medium and the slow buffer are empty and neither thread
  is in its loop.
\<close>

theorem warmup_primer_samples:
  assumes "boot w path b c = Some s0" and "e = eng (exec pl evs s0)"
  shows "(\<forall>i. fast_thread e = Some (FPrimer i) \<longrightarrow>
            \<not> wait_for_warmup_ready e \<and> length (fast_samples e) = i \<and> i \<le> 10)
       \<and> (fast_thread e = Some FPublish \<and> running e \<longrightarrow>
            \<not> wait_for_warmup_ready e \<and> length (fast_samples e) = 10)
       \<and> (wait_for_warmup_ready e \<and> running e \<longrightarrow> 10 \<le> length (fast_samples e))
       \<and> sample_count e = word_of_nat (length (fast_samples e))
       \<and> (wait_for_warmup_ready e \<and> running e \<and> length (fast_samples e) < 2 ^ 64 \<longrightarrow>
            10 \<le> unat (sample_count e))
       \<and> (\<not> wait_for_warmup_ready e \<longrightarrow>
            medium_samples e = [] \<and> slow_samples e = []
            \<and> medium_thread e \<noteq> Some TLoop \<and> slow_thread e \<noteq> Some TLoop)"
proof -
  have r: "run_inv e"
    unfolding assms(2) using assms(1) by (rule run_inv_reachable)
  have "wait_for_warmup_ready e \<and> running e \<and> length (fast_samples e) < 2 ^ 64 \<longrightarrow>
            10 \<le> unat (sample_count e)"
    using r by (auto simp: run_inv_def wait_for_warmup_ready_def sample_count_def unat_of_nat)
  then show ?thesis
    using r by (auto simp: run_inv_def wait_for_warmup_ready_def sample_count_def)
qed

theorem warmup_primer_samples_witness:
  "boot demo_world ''/tmp/trace.bin'' demo_board default_EngineConfig = Some demo_sys
   \<and> wait_for_warmup_ready (eng (exec demo_platform warm_run demo_sys))
   \<and> running (eng (exec demo_platform warm_run demo_sys))
   \<and> length (fast_samples (eng (exec demo_platform warm_run demo_sys))) < 2 ^ 64
   \<and> 10 \<le> unat (sample_count (eng (exec demo_platform warm_run demo_sys)))
   \<and> fast_thread (eng (exec demo_platform (CallStart 0 # replicate 11 (Fast demo_tick)) demo_sys))
       = Some FPublish
   \<and> running (eng (exec demo_platform (CallStart 0 # replicate 11 (Fast demo_tick)) demo_sys))
   \<and> \<not> wait_for_warmup_ready
         (eng (exec demo_platform (CallStart 0 # replicate 11 (Fast demo_tick)) demo_sys))
   \<and> length (fast_samples
         (eng (exec demo_platform (CallStart 0 # replicate 11 (Fast demo_tick)) demo_sys))) = 10
   \<and> medium_samples
         (eng (exec demo_platform (CallStart 0 # replicate 11 (Fast demo_tick) @ [Medium demo_tick])
                 demo_sys)) = []"
proof -
  let ?e = "eng (exec demo_platform warm_run demo_sys)"
  let ?p = "eng (exec demo_platform (CallStart 0 # replicate 11 (Fast demo_tick)) demo_sys)"
  let ?m = "eng (exec demo_platform (CallStart 0 # replicate 11 (Fast demo_tick) @ [Medium demo_tick])
                 demo_sys)"
  have b: "boot demo_world ''/tmp/trace.bin'' demo_board default_EngineConfig = Some demo_sys"
    by (simp add: boot_def Engine_new_def demo_sys_def demo_board_def size_as_int_def
          MAX_CPU_CORES_def MAX_POWER_RAILS_def MAX_THERMAL_ZONES_def)
  have w: "wait_for_warmup_ready ?e" by code_simp
  have r: "running ?e" by code_simp
  have l: "length (fast_samples ?e) = 10" by code_simp
  have p: "fast_thread ?p = Some FPublish" by code_simp
  have rp: "running ?p" by code_simp
  have nm: "\<not> wait_for_warmup_ready ?m" by code_simp
  show ?thesis
    using warmup_primer_samples [OF b refl, of demo_platform warm_run]
      warmup_primer_samples [OF b refl, of demo_platform "CallStart 0 # replicate 11 (Fast demo_tick)"]
      warmup_primer_samples [OF b refl, of demo_platform
        "CallStart 0 # replicate 11 (Fast demo_tick) @ [Medium demo_tick]"]
      b w r l p rp nm
    by simp
qed


lemma warming_zero: "warming e \<Longrightarrow> warm_rank e = 0 \<Longrightarrow> warmed_up e"
  by (auto simp: warming_def warm_rank_def split: if_splits)

lemma warming_run_fast:
  "warming e \<Longrightarrow> warming (run_fast pl inp e) \<and> warm_rank (run_fast pl inp e) \<le> warm_rank e - 1"
  by (auto simp: warming_def warm_rank_def run_fast_def split: option.splits fast_pc.splits)

lemma warming_frame:
  assumes "warming e" and "running e' = running e" and "warmed_up e' = warmed_up e"
    and "fast_thread e' = fast_thread e \<or> (fast_thread e = Some FDone \<and> fast_thread e' = None)"
  shows "warming e' \<and> warm_rank e' \<le> warm_rank e"
  using assms by (auto simp: warming_def warm_rank_def)

lemma stop_step_fast_thread:
  "fast_thread (eng (stop_step s)) = fast_thread (eng s)
   \<or> (fast_thread (eng s) = Some FDone \<and> fast_thread (eng (stop_step s)) = None)"
proof (cases "ctl s")
  case CloseFds
  then show ?thesis by (simp add: stop_step_CloseFds close_fds_fields)
qed (simp_all add: stop_step_def split: option.splits sum.splits)

lemma warming_step:
  assumes "warming (eng s)" and "\<not> is_CallStart ev"
  shows "warming (eng (step pl ev s))
       \<and> warm_rank (eng (step pl ev s)) \<le> warm_rank (eng s) - (if is_Fast ev then 1 else 0)"
proof (cases ev)
  case (CallStart t)
  then show ?thesis using assms(2) by simp
next
  case CallStop
  have "warming ((eng s)\<lparr>running := False\<rparr>)
        \<and> warm_rank ((eng s)\<lparr>running := False\<rparr>) \<le> warm_rank (eng s)"
    using assms(1) by (simp add: warming_def warm_rank_def)
  then show ?thesis using CallStop assms(1) by simp
next
  case Ctl
  have "warming (eng (stop_step s)) \<and> warm_rank (eng (stop_step s)) \<le> warm_rank (eng s)"
    using assms(1) by (rule warming_frame) (simp_all add: stop_step_frame stop_step_fast_thread)
  then show ?thesis using Ctl by simp
next
  case CallSync
  have "warming (snd (sync (eng s))) \<and> warm_rank (snd (sync (eng s))) \<le> warm_rank (eng s)"
    using assms(1) by (rule warming_frame) (simp_all add: sync_frame)
  then show ?thesis using CallSync by simp
next
  case (Fast inp)
  then show ?thesis using warming_run_fast [OF assms(1)] by simp
next
  case (Medium inp)
  have "warming (run_medium pl inp (eng s))
        \<and> warm_rank (run_medium pl inp (eng s)) \<le> warm_rank (eng s)"
    using assms(1) by (rule warming_frame) (simp_all add: run_medium_frame)
  then show ?thesis using Medium by simp
next
  case (Slow inp)
  have "warming (run_slow pl inp (eng s))
        \<and> warm_rank (run_slow pl inp (eng s)) \<le> warm_rank (eng s)"
    using assms(1) by (rule warming_frame) (simp_all add: run_slow_frame)
  then show ?thesis using Slow by simp
qed

lemma warming_exec:
  assumes "warming (eng s)" and "\<forall>ev \<in> set evs. \<not> is_CallStart ev"
  shows "warming (eng (exec pl evs s))
       \<and> warm_rank (eng (exec pl evs s)) \<le> warm_rank (eng s) - length (filter is_Fast evs)"
  using assms unfolding exec_def
proof (induction evs arbitrary: s)
  case Nil
  then show ?case by simp
next
  case (Cons ev evs)
  from Cons.prems have st: "warming (eng (step pl ev s))"
    "warm_rank (eng (step pl ev s)) \<le> warm_rank (eng s) - (if is_Fast ev then 1 else 0)"
    using warming_step [of s ev pl] by simp_all
  from Cons.IH [OF st(1)] Cons.prems(2)
  have "warming (eng (fold (step pl) evs (step pl ev s)))"
    "warm_rank (eng (fold (step pl) evs (step pl ev s)))
       \<le> warm_rank (eng (step pl ev s)) - length (filter is_Fast evs)"
    by simp_all
  then show ?case using st(2) by auto
qed

lemma warm_rank_le_2: "warm_rank e \<le> 2"
  by (simp add: warm_rank_def split: option.splits fast_pc.splits)

lemma cold_step:
  assumes "fresh_inv s" and "\<not> warmed_up (eng s)" and "\<not> is_CallStart ev"
  shows "\<not> warmed_up (eng (step pl ev s))"
proof (cases ev)
  case Ctl
  then show ?thesis using assms(2) by (simp add: stop_step_frame)
qed (use assms in \<open>simp_all add: fresh_inv_def sync_def Let_def run_fast_def run_medium_def run_slow_def\<close>)

lemma cold_exec:
  assumes "fresh_inv s" and "\<not> warmed_up (eng s)" and "\<forall>ev \<in> set evs. \<not> is_CallStart ev"
  shows "\<not> warmed_up (eng (exec pl evs s))"
  using assms unfolding exec_def
proof (induction evs arbitrary: s)
  case Nil
  then show ?case by simp
next
  case (Cons ev evs)
  have "fresh_inv (step pl ev s)" using fresh_inv_step [of s ev pl] Cons.prems by simp
  moreover have "\<not> warmed_up (eng (step pl ev s))"
    using cold_step [of s ev pl] Cons.prems by simp
  ultimately show ?case using Cons.IH [of "step pl ev s"] Cons.prems(3) by simp
qed

lemma never_started_cold:
  assumes "boot w path b c = Some s0" and "\<forall>ev \<in> set evs. \<not> is_CallStart ev"
  shows "\<not> warmed_up (eng (exec pl evs s0))"
proof -
  have "fresh_inv s0" using never_started(1) [OF assms(1), of "[]" pl] by (simp add: exec_def)
  moreover have "\<not> warmed_up (eng s0)"
    using boot_eng [OF assms(1)] by (simp add: Engine_init_def)
  ultimately show ?thesis using assms(2) by (rule cold_exec)
qed

text \<open>
  Claim C4. Whenever \<open>running\<close> is false the warmup barrier releases, even if
  \<open>warmed_up\<close> was never set: every thread blocked in \<open>wait_for_warmup\<close> is
  unblocked after \<open>stop()\<close> has set \<open>running = false\<close>, also when \<open>stop\<close> is called
  before the primer samples are complete. The predicate of the barrier is
  \<open>warmed_up_\<close> alone. What releases the waiters of a stopped run is the fast
  thread: once \<open>running_\<close> is false it leaves the primer loop at its next test and
  then stores \<open>warmed_up_ = true\<close>. So in a run whose fast thread has not been
  joined, after \<open>running_\<close> has become false and the fast thread has taken two
  more steps (with no new \<open>start\<close> in between), the barrier is open, and a medium
  or slow thread waiting at it proceeds when it is scheduled. On an engine that
  has never been started, whatever is called or scheduled short of \<open>start\<close>
  (the events \<open>evs0\<close>, among them whole calls of \<open>stop\<close>), \<open>running_\<close> is false, no
  tier thread exists and the barrier stays closed.
\<close>

theorem warmup_released_after_stop:
  assumes "boot w path b c = Some s0"
  shows "(s = exec pl evs s0 \<and> fast_thread (eng s) \<noteq> None \<and> \<not> running (eng s)
          \<and> (\<forall>ev \<in> set evs'. \<not> is_CallStart ev) \<and> 2 \<le> length (filter is_Fast evs') \<longrightarrow>
            wait_for_warmup_ready (eng (exec pl evs' s))
          \<and> (medium_thread (eng (exec pl evs' s)) = Some TWait \<longrightarrow>
               medium_thread (run_medium pl inp (eng (exec pl evs' s))) = Some TLoop)
          \<and> (slow_thread (eng (exec pl evs' s)) = Some TWait \<longrightarrow>
               slow_thread (run_slow pl inp (eng (exec pl evs' s))) = Some TLoop))
       \<and> (\<forall>e. wait_for_warmup_ready e = warmed_up e)
       \<and> ((\<forall>ev \<in> set evs0. \<not> is_CallStart ev) \<longrightarrow>
            \<not> running (eng (exec pl evs0 s0))
          \<and> \<not> wait_for_warmup_ready (eng (exec pl evs0 s0))
          \<and> fast_thread (eng (exec pl evs0 s0)) = None
          \<and> medium_thread (eng (exec pl evs0 s0)) = None
          \<and> slow_thread (eng (exec pl evs0 s0)) = None)"
proof -
  have started: "wait_for_warmup_ready (eng (exec pl evs' s))
          \<and> (medium_thread (eng (exec pl evs' s)) = Some TWait \<longrightarrow>
               medium_thread (run_medium pl inp (eng (exec pl evs' s))) = Some TLoop)
          \<and> (slow_thread (eng (exec pl evs' s)) = Some TWait \<longrightarrow>
               slow_thread (run_slow pl inp (eng (exec pl evs' s))) = Some TLoop)"
    if s: "s = exec pl evs s0" and f: "fast_thread (eng s) \<noteq> None" and r: "\<not> running (eng s)"
      and n: "\<forall>ev \<in> set evs'. \<not> is_CallStart ev" and k: "2 \<le> length (filter is_Fast evs')"
  proof -
    have "run_inv (eng s)"
      unfolding s using assms by (rule run_inv_reachable)
    then have "warming (eng s)"
      using f r unfolding warming_def run_inv_def
      by (cases "fast_thread (eng s)") (auto split: fast_pc.splits intro: fast_pc.exhaust)
    from warming_exec [OF this n, of pl]
    have w: "warming (eng (exec pl evs' s))"
      and "warm_rank (eng (exec pl evs' s)) \<le> warm_rank (eng s) - length (filter is_Fast evs')"
      by simp_all
    then have "warm_rank (eng (exec pl evs' s)) = 0"
      using k warm_rank_le_2 [of "eng s"] by simp
    with w have "warmed_up (eng (exec pl evs' s))" by (rule warming_zero)
    then show ?thesis
      by (simp add: wait_for_warmup_ready_def run_medium_def run_slow_def)
  qed
  have pred: "\<forall>e. wait_for_warmup_ready e = warmed_up e"
    by (simp add: wait_for_warmup_ready_def)
  have never: "\<not> running (eng (exec pl evs0 s0))
          \<and> \<not> wait_for_warmup_ready (eng (exec pl evs0 s0))
          \<and> fast_thread (eng (exec pl evs0 s0)) = None
          \<and> medium_thread (eng (exec pl evs0 s0)) = None
          \<and> slow_thread (eng (exec pl evs0 s0)) = None"
    if n: "\<forall>ev \<in> set evs0. \<not> is_CallStart ev"
    using never_started(1) [OF assms n, of pl] never_started_cold [OF assms n, of pl]
    by (simp add: fresh_inv_def wait_for_warmup_ready_def)
  show ?thesis using started pred never by blast
qed

theorem warmup_released_after_stop_witness:
  "boot demo_world ''/tmp/trace.bin'' demo_board default_EngineConfig = Some demo_sys
   \<and> fast_thread (eng stopped_early) = Some (FPrimer 2)
   \<and> \<not> running (eng stopped_early)
   \<and> \<not> wait_for_warmup_ready (eng stopped_early)
   \<and> filter is_CallStart [Medium demo_tick, Fast demo_tick, Ctl, Fast demo_tick] = []
   \<and> 2 \<le> length (filter is_Fast [Medium demo_tick, Fast demo_tick, Ctl, Fast demo_tick])
   \<and> wait_for_warmup_ready
        (eng (exec demo_platform [Medium demo_tick, Fast demo_tick, Ctl, Fast demo_tick] stopped_early))
   \<and> medium_thread
        (eng (exec demo_platform [Medium demo_tick, Fast demo_tick, Ctl, Fast demo_tick] stopped_early))
       = Some TWait
   \<and> medium_thread
        (run_medium demo_platform demo_tick
          (eng (exec demo_platform [Medium demo_tick, Fast demo_tick, Ctl, Fast demo_tick] stopped_early)))
       = Some TLoop
   \<and> filter is_CallStart (Fast demo_tick # CallSync # stop_alone @ [Medium demo_tick]) = []
   \<and> ctl (exec demo_platform (Fast demo_tick # CallSync # stop_alone @ [Medium demo_tick]) demo_sys)
       = Returned
   \<and> \<not> wait_for_warmup_ready
         (eng (exec demo_platform (Fast demo_tick # CallSync # stop_alone @ [Medium demo_tick]) demo_sys))
   \<and> fast_thread
        (eng (exec demo_platform (Fast demo_tick # CallSync # stop_alone @ [Medium demo_tick]) demo_sys))
       = None"
proof -
  let ?evs = "[Medium demo_tick, Fast demo_tick, Ctl, Fast demo_tick]"
  let ?idle = "Fast demo_tick # CallSync # stop_alone @ [Medium demo_tick]"
  have b: "boot demo_world ''/tmp/trace.bin'' demo_board default_EngineConfig = Some demo_sys"
    by (simp add: boot_def Engine_new_def demo_sys_def demo_board_def size_as_int_def
          MAX_CPU_CORES_def MAX_POWER_RAILS_def MAX_THERMAL_ZONES_def)
  have f: "fast_thread (eng stopped_early) = Some (FPrimer 2)" by code_simp
  have r: "\<not> running (eng stopped_early)" by code_simp
  have n: "\<not> wait_for_warmup_ready (eng stopped_early)" by code_simp
  have m: "medium_thread (eng (exec demo_platform ?evs stopped_early)) = Some TWait" by code_simp
  have f': "fast_thread (eng stopped_early) \<noteq> None" using f by simp
  have c: "\<forall>ev \<in> set ?evs. \<not> is_CallStart ev" by simp
  have k: "2 \<le> length (filter is_Fast ?evs)" by simp
  have c0: "\<forall>ev \<in> set ?idle. \<not> is_CallStart ev" unfolding stop_alone_def by simp
  have c0': "filter is_CallStart ?idle = []" unfolding stop_alone_def by simp
  have t0: "ctl (exec demo_platform ?idle demo_sys) = Returned" by code_simp
  note t = warmup_released_after_stop [OF b, of stopped_early demo_platform
      "[CallStart 0, Fast demo_tick, Fast demo_tick, CallStop]" ?evs demo_tick ?idle]
  have p1: "wait_for_warmup_ready (eng (exec demo_platform ?evs stopped_early))
      \<and> (medium_thread (eng (exec demo_platform ?evs stopped_early)) = Some TWait \<longrightarrow>
           medium_thread (run_medium demo_platform demo_tick (eng (exec demo_platform ?evs stopped_early)))
             = Some TLoop)"
    using t stopped_early_def f' r c k by blast
  have p2: "\<not> wait_for_warmup_ready (eng (exec demo_platform ?idle demo_sys))
      \<and> fast_thread (eng (exec demo_platform ?idle demo_sys)) = None"
    using t c0 by blast
  show ?thesis
    using b f r n m p1 p2 c0' t0 by simp
qed

text \<open>
  The claim as stated fails in two states. In a run stopped after one primer,
  right after \<open>stop\<close> has stored \<open>running_ = false\<close>, the barrier is still closed
  and a medium thread scheduled then stays in \<open>wait_for_warmup\<close>. On an engine
  that was never started, \<open>stop()\<close> returns and the barrier is closed before and
  after.
\<close>

theorem barrier_ignores_running_counterexample:
  "\<not> running (eng (exec demo_platform [CallStart 0, Fast demo_tick, CallStop] demo_sys))
   \<and> \<not> wait_for_warmup_ready
         (eng (exec demo_platform [CallStart 0, Fast demo_tick, CallStop] demo_sys))
   \<and> medium_thread
        (eng (exec demo_platform [CallStart 0, Fast demo_tick, CallStop, Medium demo_tick] demo_sys))
       = Some TWait
   \<and> ctl (exec demo_platform stop_alone demo_sys) = Returned
   \<and> \<not> running (eng (exec demo_platform stop_alone demo_sys))
   \<and> \<not> wait_for_warmup_ready (eng (exec demo_platform stop_alone demo_sys))"
  by code_simp

subsection \<open>The CPU reader\<close>

lemma split_lines_nonempty: "split_lines p \<noteq> []"
  by (cases p) simp_all

lemma split_lines_append:
  "NL \<notin> set a \<Longrightarrow> split_lines (a @ r) = (a @ hd (split_lines r)) # tl (split_lines r)"
  by (induction a) (auto simp: split_lines_nonempty)

lemma split_lines_decomp:
  "\<exists>a r. p = a @ r \<and> NL \<notin> set a \<and> line_end r"
proof -
  have "p = takeWhile (\<lambda>c. c \<noteq> NL) p @ dropWhile (\<lambda>c. c \<noteq> NL) p" by simp
  moreover have "NL \<notin> set (takeWhile (\<lambda>c. c \<noteq> NL) p)"
    by (auto dest: set_takeWhileD)
  moreover have "line_end (dropWhile (\<lambda>c. c \<noteq> NL) p)"
    unfolding line_end_def using hd_dropWhile [of "\<lambda>c. c \<noteq> NL" p] by auto
  ultimately show ?thesis by blast
qed

lemma skip_past_frame: "NL \<notin> set a \<Longrightarrow> skip_past (a @ r) NL = skip_past r NL"
  by (induction a) auto

lemma skip_past_line_end:
  "line_end r \<Longrightarrow> skip_past r NL = (if r = [] then None else Some (tl r))"
  by (cases r) (simp_all add: line_end_def)

lemma split_lines_line_end:
  "line_end r \<Longrightarrow> split_lines r = (if r = [] then [[]] else [] # split_lines (tl r))"
  by (cases r) (simp_all add: line_end_def)

lemma not_digit_NL: "\<not> is_digit NL"
  by (simp add: is_digit_def NL_def)

lemma deref_frame:
  "line_end r \<Longrightarrow> (deref (a @ r) \<noteq> NUL \<and> deref (a @ r) \<noteq> NL) = (deref a \<noteq> NUL \<and> deref a \<noteq> NL)"
  by (cases a; cases r) (simp_all add: deref_def line_end_def)

lemma dropWhile_frame:
  "line_end r \<Longrightarrow> \<not> P NL \<Longrightarrow> dropWhile P (a @ r) = dropWhile P a @ r"
  by (induction a) (auto simp: line_end_def intro: dropWhile_eq_self_iff [THEN iffD2] simp: neq_Nil_conv)

lemma parse_digits_frame:
  "line_end r \<Longrightarrow> parse_digits v (a @ r) = (fst (parse_digits v a), snd (parse_digits v a) @ r)"
proof (induction a arbitrary: v)
  case Nil
  then show ?case by (cases r) (simp_all add: line_end_def not_digit_NL)
next
  case (Cons x a)
  then show ?case by simp
qed

lemma skip_blanks_frame: "line_end r \<Longrightarrow> skip_blanks (a @ r) = skip_blanks a @ r"
  unfolding skip_blanks_def by (rule dropWhile_frame) (simp_all add: NL_def TAB_def)

lemma parse_u64_frame:
  "line_end r \<Longrightarrow> parse_u64 (a @ r) = (fst (parse_u64 a), snd (parse_u64 a) @ r)"
  by (simp add: parse_u64_def parse_digits_frame skip_blanks_frame split: prod.splits)

lemma parse_vals_frame:
  "line_end r \<Longrightarrow>
     parse_vals i vals (a @ r) = (fst (parse_vals i vals a), snd (parse_vals i vals a) @ r)"
proof (induction i vals a rule: parse_vals.induct)
  case (1 i vals q)
  show ?case
  proof (cases "i < 10 \<and> deref q \<noteq> NUL \<and> deref q \<noteq> NL")
    case True
    then have c: "i < 10 \<and> deref (q @ r) \<noteq> NUL \<and> deref (q @ r) \<noteq> NL"
      using deref_frame [OF "1.prems", of q] by simp
    obtain v q' where p: "parse_u64 q = (v, q')" by (cases "parse_u64 q")
    then have p': "parse_u64 (q @ r) = (v, q' @ r)"
      using parse_u64_frame [OF "1.prems", of q] by simp
    have ih: "parse_vals (i + 1) (vals[i := v]) (q' @ r)
            = (fst (parse_vals (i + 1) (vals[i := v]) q'),
               snd (parse_vals (i + 1) (vals[i := v]) q') @ r)"
      using "1.IH" [OF True p [symmetric] "1.prems"] .
    have l: "parse_vals i vals (q @ r) = parse_vals (i + 1) (vals[i := v]) (q' @ r)"
      using c p' by (simp add: parse_vals.simps [of i vals "q @ r"])
    have r: "parse_vals i vals q = parse_vals (i + 1) (vals[i := v]) q'"
      using True p by (simp add: parse_vals.simps [of i vals q])
    show ?thesis unfolding l r by (rule ih)
  next
    case False
    then have c: "\<not> (i < 10 \<and> deref (q @ r) \<noteq> NUL \<and> deref (q @ r) \<noteq> NL)"
      using deref_frame [OF "1.prems", of q] by simp
    have l: "parse_vals i vals (q @ r) = (vals, q @ r)"
      using c by (auto simp: parse_vals.simps [of i vals "q @ r"])
    have r: "parse_vals i vals q = (vals, q)"
      using False by (auto simp: parse_vals.simps [of i vals q])
    show ?thesis unfolding l r by simp
  qed
qed

lemma deref_space_frame:
  "line_end r \<Longrightarrow> (deref (a @ r) = CHR '' '') = (deref a = CHR '' '')"
  by (cases a; cases r) (simp_all add: deref_def line_end_def NL_def NUL_def)

lemma tl_frame: "a \<noteq> [] \<Longrightarrow> tl (a @ r) = tl a @ r"
  by (cases a) simp_all

lemma deref_space_nonempty: "deref a = CHR '' '' \<Longrightarrow> a \<noteq> []"
  by (auto simp: deref_def NUL_def)

lemma take3_frame:
  assumes "line_end r" and "NL \<notin> set a"
  shows "(take 3 (a @ r) = ''cpu'') = (take 3 a = ''cpu'')"
proof (cases "3 \<le> length a")
  case True
  then show ?thesis by simp
next
  case False
  then have s: "length a < 3" by simp
  have "take 3 a \<noteq> ''cpu''"
  proof
    assume "take 3 a = ''cpu''"
    then have "length (take 3 a) = 3" by simp
    then show False using s by simp
  qed
  moreover have "take 3 (a @ r) \<noteq> ''cpu''"
  proof
    assume e: "take 3 (a @ r) = ''cpu''"
    then have "length (take 3 (a @ r)) = 3" by simp
    then have "r \<noteq> []" using s by auto
    then have "hd r = NL" using assms(1) by (simp add: line_end_def)
    then have "(a @ r) ! length a = NL" using \<open>r \<noteq> []\<close> by (simp add: nth_append hd_conv_nth)
    moreover have "take 3 (a @ r) ! length a = (a @ r) ! length a"
      using s by (rule nth_take)
    ultimately have "take 3 (a @ r) ! length a = NL" by (simp only:)
    then have "''cpu'' ! length a = NL" unfolding e .
    then show False using s
      by (cases "length a"; simp add: NL_def) (rename_tac n, case_tac n; simp; rename_tac m, case_tac m; simp)
  qed
  ultimately show ?thesis by simp
qed

lemma cpu_line_frame:
  assumes "line_end r" and "take 3 a = ''cpu''"
  shows "cpu_line (a @ r) = (fst (cpu_line a), snd (cpu_line a) @ r)"
proof -
  let ?q0 = "dropWhile is_digit (drop 3 a)"
  let ?q1 = "if deref ?q0 = CHR '' '' then tl ?q0 else ?q0"
  have "length (take 3 a) = 3" unfolding assms(2) by simp
  then have "3 \<le> length a" by simp
  then have d: "drop 3 (a @ r) = drop 3 a @ r" by simp
  have q0: "dropWhile is_digit (drop 3 (a @ r)) = ?q0 @ r"
    unfolding d using assms(1) by (rule dropWhile_frame) (rule not_digit_NL)
  have q1: "(if deref (?q0 @ r) = CHR '' '' then tl (?q0 @ r) else ?q0 @ r) = ?q1 @ r"
    using deref_space_frame [OF assms(1), of ?q0] deref_space_nonempty [of ?q0]
    by (simp add: tl_frame)
  show ?thesis
    unfolding cpu_line_def q0
    by (simp only: Let_def q1 parse_vals_frame [OF assms(1)]) (simp split: prod.splits)
qed

lemma set_dropWhile_subset: "set (dropWhile P xs) \<subseteq> set xs"
  by (auto dest: set_dropWhileD)

lemma set_tl_subset: "set (tl xs) \<subseteq> set xs"
  by (cases xs) auto

lemma parse_digits_suffix: "set (snd (parse_digits v a)) \<subseteq> set a"
  by (induction a arbitrary: v) auto

lemma parse_u64_suffix: "set (snd (parse_u64 a)) \<subseteq> set a"
proof -
  have "set (skip_blanks (snd (parse_digits 0 a))) \<subseteq> set (snd (parse_digits 0 a))"
    unfolding skip_blanks_def by (rule set_dropWhile_subset)
  also have "\<dots> \<subseteq> set a" by (rule parse_digits_suffix)
  finally show ?thesis by (simp add: parse_u64_def split_beta)
qed

lemma parse_vals_suffix: "set (snd (parse_vals i vals a)) \<subseteq> set a"
proof (induction i vals a rule: parse_vals.induct)
  case (1 i vals q)
  show ?case
  proof (cases "i < 10 \<and> deref q \<noteq> NUL \<and> deref q \<noteq> NL")
    case True
    obtain v q' where p: "parse_u64 q = (v, q')" by (cases "parse_u64 q")
    have "set (snd (parse_vals (i + 1) (vals[i := v]) q')) \<subseteq> set q'"
      using "1.IH" [OF True p [symmetric]] .
    moreover have "set q' \<subseteq> set q" using parse_u64_suffix [of q] p by simp
    moreover have "parse_vals i vals q = parse_vals (i + 1) (vals[i := v]) q'"
      using True p by (simp add: parse_vals.simps [of i vals q])
    ultimately show ?thesis by auto
  next
    case False
    then show ?thesis by (auto simp: parse_vals.simps [of i vals q])
  qed
qed

lemma cpu_line_suffix: "set (snd (cpu_line a)) \<subseteq> set a"
proof -
  let ?q0 = "dropWhile is_digit (drop 3 a)"
  let ?q1 = "if deref ?q0 = CHR '' '' then tl ?q0 else ?q0"
  have "set ?q0 \<subseteq> set (drop 3 a)" by (rule set_dropWhile_subset)
  then have "set ?q0 \<subseteq> set a" using set_drop_subset [of 3 a] by blast
  moreover have "set ?q1 \<subseteq> set ?q0"
    using set_tl_subset [of ?q0] by simp
  moreover have "set (snd (parse_vals 0 (replicate 10 0) ?q1)) \<subseteq> set ?q1"
    by (rule parse_vals_suffix)
  moreover have "snd (cpu_line a) = snd (parse_vals 0 (replicate 10 0) ?q1)"
    by (simp add: cpu_line_def Let_def split_beta)
  ultimately show ?thesis by (simp only:)
qed

lemma cpu_line_jiffies: "fst (cpu_line l) = line_jiffies l"
  by (simp add: line_jiffies_def cpu_line_def line_fields_def Let_def split_beta)

lemma cpu_util_of_eq: "cpu_util_of pl new prev = core_util pl new prev"
  by (simp add: cpu_util_of_def core_util_def Let_def)

lemma cpu_loop_stop: "\<not> (int c < n \<and> p \<noteq> None) \<Longrightarrow> cpu_loop pl n c p st = st"
  by (subst cpu_loop.simps) auto

lemma cpu_loop_break:
  "int c < n \<Longrightarrow> take 3 l \<noteq> ''cpu'' \<Longrightarrow> cpu_loop pl n c (Some l) st = st"
  by (simp add: cpu_loop.simps [of pl n c "Some l" st])

lemma cpu_loop_step:
  "int c < n \<Longrightarrow> take 3 l = ''cpu'' \<Longrightarrow>
     cpu_loop pl n c (Some l) st
       = cpu_loop pl n (c + 1) (skip_past (snd (cpu_line l)) NL) (upd_core pl c (fst (cpu_line l)) st)"
  by (simp add: cpu_loop.simps [of pl n c "Some l" st] upd_core_def Let_def split_beta)

lemma cpu_loop_lines:
  "cpu_loop pl n c p st
     = lines_loop pl c (takeWhile starts_cpu (take (nat n - c) (segs p))) st"
proof (induction pl n c p st rule: cpu_loop.induct)
  case (1 pl n c p st)
  show ?case
  proof (cases "int c < n \<and> p \<noteq> None")
    case False
    then have e: "take (nat n - c) (segs p) = []"
      by (auto simp: segs_def)
    show ?thesis unfolding e cpu_loop_stop [OF False] by simp
  next
    case True
    then obtain l where p: "p = Some l" by auto
    obtain a r where l: "l = a @ r" and a: "NL \<notin> set a" and r: "line_end r"
      using split_lines_decomp [of l] by blast
    let ?X = "if r = [] then [] else split_lines (tl r)"
    have sl: "split_lines l = a # ?X"
      unfolding l using split_lines_append [OF a, of r] split_lines_line_end [OF r] by simp
    have pos: "nat n - c = Suc (nat n - Suc c)" using True by linarith
    have st: "starts_cpu a = (take 3 l = ''cpu'')"
      unfolding l starts_cpu_def using take3_frame [OF r a] by simp
    show ?thesis
    proof (cases "take 3 l = ''cpu''")
      case False
      then show ?thesis
        using True st by (simp add: p cpu_loop_break segs_def sl pos)
    next
      case cpu: True
      then have ta: "take 3 a = ''cpu''" using st by (simp add: starts_cpu_def)
      have cl: "cpu_line l = (fst (cpu_line a), snd (cpu_line a) @ r)"
        unfolding l using r ta by (rule cpu_line_frame)
      have "NL \<notin> set (snd (cpu_line a))" using cpu_line_suffix [of a] a by blast
      then have sk: "skip_past (snd (cpu_line l)) NL = (if r = [] then None else Some (tl r))"
        by (simp add: cl skip_past_frame skip_past_line_end [OF r])
      have sg: "segs (skip_past (snd (cpu_line l)) NL) = ?X"
        by (simp add: sk segs_def)
      have "cpu_loop pl n c p st
              = cpu_loop pl n (c + 1) (skip_past (snd (cpu_line l)) NL)
                  (upd_core pl c (fst (cpu_line l)) st)"
        unfolding p using True cpu by (simp add: cpu_loop_step)
      also have "\<dots> = lines_loop pl (c + 1)
                          (takeWhile starts_cpu (take (nat n - (c + 1)) ?X))
                          (upd_core pl c (fst (cpu_line l)) st)"
      proof -
        have n3: "\<not> take 3 (the p) \<noteq> ''cpu''" using cpu p by simp
        have pc: "(fst (cpu_line (the p)), snd (cpu_line (the p))) = cpu_line (the p)" by simp
        show ?thesis
          using "1.IH" [OF True refl n3 pc refl] sg
          by (simp add: upd_core_def p)
      qed
      also have "\<dots> = lines_loop pl c (takeWhile starts_cpu (take (nat n - c) (segs p))) st"
        using st cpu by (simp add: p segs_def sl pos cl cpu_line_jiffies)
      finally show ?thesis .
    qed
  qed
qed

lemma zero_from_id:
  "(\<And>c. lo \<le> c \<Longrightarrow> c < hi \<Longrightarrow> c < length xs \<Longrightarrow> xs ! c = F_0) \<Longrightarrow> zero_from lo hi xs = xs"
  unfolding zero_from_def
proof (induction "hi - lo" arbitrary: lo)
  case 0
  then show ?case by simp
next
  case (Suc d)
  then have lt: "lo < hi" by simp
  have "xs[lo := F_0] = xs"
  proof (cases "lo < length xs")
    case True
    then have "xs ! lo = F_0" using Suc.prems lt by simp
    then show ?thesis using list_update_id [of xs lo] by simp
  next
    case False
    then have "length xs \<le> lo" by simp
    then show ?thesis by (rule list_update_beyond)
  qed
  moreover have "fold (\<lambda>c ys. ys[c := F_0]) [Suc lo..<hi] xs = xs"
    using Suc.hyps(1) [of "Suc lo"] Suc.hyps(2) Suc.prems by simp
  ultimately show ?case using lt by (simp add: upt_conv_Cons)
qed

lemma lines_loop_closed:
  assumes "length us = c" and "length js = c"
    and "c + length ls \<le> length prev0" and "c + length ls \<le> 16"
  shows "lines_loop pl c ls
           \<lparr>per_core = us @ replicate (16 - c) F_0, prev_cpu_st = js @ drop c prev0,
            sum_util = foldl (f_add pl) F_0 us, cores_parsed = c\<rparr>
         = \<lparr>per_core = (us @ map2 (cpu_util_of pl) (map line_jiffies ls) (drop c prev0))
                        @ replicate (16 - (c + length ls)) F_0,
            prev_cpu_st = (js @ map line_jiffies ls) @ drop (c + length ls) prev0,
            sum_util = foldl (f_add pl) F_0
                         (us @ map2 (cpu_util_of pl) (map line_jiffies ls) (drop c prev0)),
            cores_parsed = c + length ls\<rparr>"
  using assms
proof (induction ls arbitrary: c us js)
  case Nil
  then show ?case by simp
next
  case (Cons l ls)
  let ?new = "line_jiffies l"
  let ?u = "cpu_util_of pl ?new (prev0 ! c)"
  have c16: "c < 16" and cp: "c < length prev0" using Cons.prems by simp_all
  have dr: "drop c prev0 = prev0 ! c # drop (Suc c) prev0"
    using cp by (simp add: Cons_nth_drop_Suc)
  have rp: "replicate (16 - c) F_0 = F_0 # replicate (16 - Suc c) F_0"
    using c16 by (cases "16 - c") (simp_all add: Suc_diff_Suc)
  have up: "upd_core pl c ?new
              \<lparr>per_core = us @ replicate (16 - c) F_0, prev_cpu_st = js @ drop c prev0,
               sum_util = foldl (f_add pl) F_0 us, cores_parsed = c\<rparr>
            = \<lparr>per_core = (us @ [?u]) @ replicate (16 - Suc c) F_0,
               prev_cpu_st = (js @ [?new]) @ drop (Suc c) prev0,
               sum_util = foldl (f_add pl) F_0 (us @ [?u]), cores_parsed = Suc c\<rparr>"
    unfolding upd_core_def using Cons.prems(1,2)
    by (simp add: dr rp nth_append list_update_append)
  have ih: "lines_loop pl (Suc c) ls
              \<lparr>per_core = (us @ [?u]) @ replicate (16 - Suc c) F_0,
               prev_cpu_st = (js @ [?new]) @ drop (Suc c) prev0,
               sum_util = foldl (f_add pl) F_0 (us @ [?u]), cores_parsed = Suc c\<rparr>
            = \<lparr>per_core = ((us @ [?u]) @ map2 (cpu_util_of pl) (map line_jiffies ls) (drop (Suc c) prev0))
                        @ replicate (16 - (Suc c + length ls)) F_0,
               prev_cpu_st = ((js @ [?new]) @ map line_jiffies ls) @ drop (Suc c + length ls) prev0,
               sum_util = foldl (f_add pl) F_0
                         ((us @ [?u]) @ map2 (cpu_util_of pl) (map line_jiffies ls) (drop (Suc c) prev0)),
               cores_parsed = Suc c + length ls\<rparr>"
    using Cons.prems by (intro Cons.IH) simp_all
  show ?case
    by (simp only: lines_loop.simps up ih) (simp add: dr)
qed

lemma segs_skip_first: "segs (skip_past buf NL) = tl (split_lines buf)"
proof -
  obtain a r where l: "buf = a @ r" and a: "NL \<notin> set a" and r: "line_end r"
    using split_lines_decomp [of buf] by blast
  have "split_lines buf = a # (if r = [] then [] else split_lines (tl r))"
    unfolding l using split_lines_append [OF a, of r] split_lines_line_end [OF r] by simp
  moreover have "skip_past buf NL = (if r = [] then None else Some (tl r))"
    unfolding l by (simp add: skip_past_frame [OF a] skip_past_line_end [OF r])
  ultimately show ?thesis by (simp add: segs_def)
qed

lemma stat_lines_length: "length (stat_lines fd n content) \<le> nat n"
proof (cases "sysfs_read fd 4096 content")
  case None
  then show ?thesis by (simp add: stat_lines_def)
next
  case (Some buf)
  have "length (takeWhile starts_cpu (take (nat n) (tl (split_lines buf))))
          \<le> length (take (nat n) (tl (split_lines buf)))"
    by (rule length_takeWhile_le)
  then show ?thesis using Some by (simp add: stat_lines_def)
qed

lemma read_cpu_eq_spec:
  assumes "length prev = nat n" and "n \<le> 16"
  shows "read_cpu pl fd n content (replicate 16 F_0) prev = read_cpu_spec pl fd n content prev"
proof (cases "sysfs_read fd 4096 content")
  case None
  have "zero_from 0 (nat n) (replicate 16 F_0) = replicate 16 F_0"
    by (rule zero_from_id) simp
  then show ?thesis
    using None by (simp add: read_cpu_def read_cpu_spec_def stat_lines_def)
next
  case (Some buf)
  let ?ls = "stat_lines fd n content"
  let ?k = "length ?ls"
  let ?utils = "map2 (core_util pl) (map line_jiffies ?ls) prev"
  have ls: "?ls = takeWhile starts_cpu (take (nat n) (tl (split_lines buf)))"
    using Some by (simp add: stat_lines_def)
  have k: "?k \<le> nat n" by (rule stat_lines_length)
  then have k16: "?k \<le> 16" and kp: "?k \<le> length prev" using assms by simp_all
  have lu: "length ?utils = ?k" using kp by simp
  have loop: "cpu_loop pl n 0 (skip_past buf NL)
                \<lparr>per_core = replicate 16 F_0, prev_cpu_st = prev, sum_util = F_0, cores_parsed = 0\<rparr>
              = \<lparr>per_core = ?utils @ replicate (16 - ?k) F_0,
                 prev_cpu_st = map line_jiffies ?ls @ drop ?k prev,
                 sum_util = foldl (f_add pl) F_0 ?utils,
                 cores_parsed = ?k\<rparr>"
    using lines_loop_closed [of "[]" 0 "[]" ?ls prev pl] k16 kp
    by (simp add: cpu_loop_lines segs_skip_first ls [symmetric] cpu_util_of_eq [abs_def])
  have z: "zero_from ?k (nat MAX_CPU_CORES) (?utils @ replicate (16 - ?k) F_0)
             = ?utils @ replicate (16 - ?k) F_0"
    by (rule zero_from_id) (simp add: nth_append lu MAX_CPU_CORES_def)
  show ?thesis
    using Some by (simp add: read_cpu_def read_cpu_spec_def Let_def loop z)
qed

lemma parse_digits_number:
  "\<forall>c \<in> set ds. is_digit c \<Longrightarrow> rest = [] \<or> \<not> is_digit (hd rest) \<Longrightarrow>
     parse_digits v (ds @ rest) = (foldl (\<lambda>v c. v * 10 + digit_val c) v ds, rest)"
proof (induction ds arbitrary: v)
  case Nil
  then show ?case by (cases rest) auto
next
  case (Cons d ds)
  then show ?case by simp
qed

lemma not_digit_blank: "\<not> is_digit CHR '' ''" "\<not> is_digit TAB"
  by (simp_all add: is_digit_def TAB_def)

lemma number_head: "number t \<Longrightarrow> is_digit (hd t) \<and> deref (t @ r) = hd t"
  by (cases t) (simp_all add: number_def deref_def)

lemma digit_not_special: "is_digit c \<Longrightarrow> c \<noteq> NUL \<and> c \<noteq> NL \<and> c \<noteq> CHR '' '' \<and> c \<noteq> TAB"
  by (auto simp: is_digit_def NUL_def NL_def TAB_def)

lemma fields_text_head:
  "ts \<noteq> [] \<Longrightarrow> \<forall>t \<in> set ts. number t \<Longrightarrow>
     fields_text ts \<noteq> [] \<and> is_digit (hd (fields_text ts))"
proof (cases ts)
  case Nil
  assume "ts \<noteq> []"
  then show ?thesis using Nil by simp
next
  case (Cons t ts')
  assume "\<forall>t \<in> set ts. number t"
  then have "number t" using Cons by simp
  then show ?thesis using Cons by (cases ts'; cases t) (simp_all add: number_def)
qed

lemma parse_u64_last: "number t \<Longrightarrow> parse_u64 t = (dec_value t, [])"
  using parse_digits_number [of t "[]" 0]
  by (simp add: parse_u64_def number_def dec_value_def skip_blanks_def)

lemma parse_u64_field:
  assumes "number t" and "rest \<noteq> []" and "is_digit (hd rest)"
  shows "parse_u64 (t @ CHR '' '' # rest) = (dec_value t, rest)"
proof -
  have "parse_digits 0 (t @ CHR '' '' # rest) = (dec_value t, CHR '' '' # rest)"
    using parse_digits_number [of t "CHR '' '' # rest" 0] assms(1)
    by (simp add: number_def dec_value_def not_digit_blank)
  moreover have "skip_blanks (CHR '' '' # rest) = rest"
    using assms(2,3) digit_not_special [of "hd rest"]
    by (cases rest) (simp_all add: skip_blanks_def)
  ultimately show ?thesis by (simp add: parse_u64_def)
qed

lemma parse_vals_Nil: "parse_vals i vals [] = (vals, [])"
  by (subst parse_vals.simps) (simp add: deref_def)

lemma parse_vals_fields:
  assumes "\<forall>t \<in> set ts. number t" and "i + length ts \<le> 10" and "length vals = 10"
  shows "parse_vals i vals (fields_text ts)
           = (take i vals @ map dec_value ts @ drop (i + length ts) vals, [])"
  using assms
proof (induction ts arbitrary: i vals rule: fields_text.induct)
  case 1
  then show ?case by (simp add: parse_vals_Nil)
next
  case (2 t)
  then have n: "number t" and i: "i < 10" by simp_all
  have d: "deref t \<noteq> NUL \<and> deref t \<noteq> NL"
    using number_head [OF n, of "[]"] digit_not_special [of "hd t"] by simp
  have "parse_vals i vals t = parse_vals (i + 1) (vals[i := dec_value t]) []"
    using i d by (simp add: parse_vals.simps [of i vals t] parse_u64_last [OF n])
  also have "\<dots> = (vals[i := dec_value t], [])"
    by (rule parse_vals_Nil)
  also have "vals[i := dec_value t] = take i vals @ [dec_value t] @ drop (i + 1) vals"
    using i "2.prems"(3) by (simp add: upd_conv_take_nth_drop)
  finally show ?case by simp
next
  case (3 t u ts)
  then have n: "number t" and i: "i < 10" by simp_all
  let ?rest = "fields_text (u # ts)"
  have h: "?rest \<noteq> [] \<and> is_digit (hd ?rest)"
    using fields_text_head [of "u # ts"] "3.prems"(1) by simp
  have d: "deref (t @ CHR '' '' # ?rest) \<noteq> NUL \<and> deref (t @ CHR '' '' # ?rest) \<noteq> NL"
    using number_head [OF n, of "CHR '' '' # ?rest"] digit_not_special [of "hd t"] by simp
  have "parse_vals i vals (fields_text (t # u # ts))
          = parse_vals (i + 1) (vals[i := dec_value t]) ?rest"
    using i d h
    by (simp add: parse_vals.simps [of i vals "t @ CHR '' '' # ?rest"] parse_u64_field [OF n])
  also have "\<dots> = (take (i + 1) (vals[i := dec_value t]) @ map dec_value (u # ts)
                      @ drop (i + 1 + length (u # ts)) (vals[i := dec_value t]), [])"
    using "3.prems" by (intro "3.IH") simp_all
  also have "take (i + 1) (vals[i := dec_value t]) = take i vals @ [dec_value t]"
    using i "3.prems"(3) by (simp add: take_Suc_conv_app_nth)
  also have "drop (i + 1 + length (u # ts)) (vals[i := dec_value t])
               = drop (i + length (t # u # ts)) vals"
    by simp
  finally show ?case by simp
qed

lemma line_fields_kernel:
  assumes "\<forall>c \<in> set nm. is_digit c" and "\<forall>t \<in> set ts. number t" and "length ts = 10"
  shows "line_fields (''cpu'' @ nm @ CHR '' '' # fields_text ts) = map dec_value ts"
proof -
  have "dropWhile is_digit (nm @ CHR '' '' # fields_text ts) = CHR '' '' # fields_text ts"
    using assms(1) by (simp add: not_digit_blank dropWhile_append2)
  then show ?thesis
    using parse_vals_fields [OF assms(2), of 0 "replicate 10 0"] assms(3)
    by (simp add: line_fields_def deref_def)
qed

subsection \<open>CPU utilisation of a fast tick\<close>

lemma read_cpu_spec_length:
  "length prev = nat n \<Longrightarrow>
     length (snd (snd (read_cpu_spec pl fd n content prev))) = length prev"
  using stat_lines_length [of fd n content]
  by (simp add: read_cpu_spec_def Let_def)

lemma fast_sample_cpu:
  "board (fast_sample pl inp e) = board e"
  "prev_cpu (fast_sample pl inp e)
     = snd (snd (read_cpu pl (fd_proc_stat e) (num_cpu_cores (board e)) (rd inp (fd_proc_stat e))
                   (replicate 16 0) (prev_cpu e)))"
  "fast_samples (fast_sample pl inp e) \<noteq> []"
  "cpu_util (last (fast_samples (fast_sample pl inp e)))
     = fst (read_cpu pl (fd_proc_stat e) (num_cpu_cores (board e)) (rd inp (fd_proc_stat e))
                   (replicate 16 0) (prev_cpu e))"
  "cpu_aggregate (last (fast_samples (fast_sample pl inp e)))
     = fst (snd (read_cpu pl (fd_proc_stat e) (num_cpu_cores (board e)) (rd inp (fd_proc_stat e))
                   (replicate 16 0) (prev_cpu e)))"
  by (simp_all add: fast_sample_def split_beta)

lemma cpu_inv_fast_sample:
  assumes "cpu_inv e" and "fast_thread e \<noteq> None"
  shows "cpu_inv (fast_sample pl inp e)"
proof -
  have l: "length (prev_cpu e) = nat (num_cpu_cores (board e))" and n: "num_cpu_cores (board e) \<le> 16"
    using assms by (simp_all add: cpu_inv_def)
  have "length (prev_cpu (fast_sample pl inp e)) = length (prev_cpu e)"
    using read_cpu_spec_length [OF l] read_cpu_eq_spec [OF l n]
    by (simp add: fast_sample_cpu F_0_def)
  then show ?thesis using l n by (simp add: cpu_inv_def fast_sample_cpu)
qed

lemma cpu_inv_frame:
  assumes "cpu_inv e" and "board e' = board e" and "prev_cpu e' = prev_cpu e"
    and "fast_thread e' = None \<or> fast_thread e \<noteq> None"
  shows "cpu_inv e'"
  using assms by (auto simp: cpu_inv_def)

lemma cpu_inv_run_fast: "cpu_inv e \<Longrightarrow> cpu_inv (run_fast pl inp e)"
proof -
  assume i: "cpu_inv e"
  have pc: "cpu_inv (e\<lparr>fast_thread := x\<rparr>)" if "fast_thread e \<noteq> None" for x
    using i that by (simp add: cpu_inv_def)
  have pw: "cpu_inv (e\<lparr>warmed_up := True, fast_thread := x\<rparr>)" if "fast_thread e \<noteq> None" for x
    using i that by (simp add: cpu_inv_def)
  have fs: "cpu_inv (fast_sample pl inp e)" if "fast_thread e \<noteq> None"
    using i that by (rule cpu_inv_fast_sample)
  have fp: "cpu_inv ((fast_sample pl inp e)\<lparr>fast_thread := x\<rparr>)" if "fast_thread e \<noteq> None" for x
    using fs [OF that] that by (simp add: cpu_inv_def fast_sample_fields)
  show ?thesis
    unfolding run_fast_def using i pc pw fs fp
    by (simp split: option.splits fast_pc.splits)
qed

lemma tier_frame:
  "board (medium_sample pl inp e) = board e" "prev_cpu (medium_sample pl inp e) = prev_cpu e"
  "board (slow_sample pl inp e) = board e" "prev_cpu (slow_sample pl inp e) = prev_cpu e"
  "board (snd (sync e)) = board e" "prev_cpu (snd (sync e)) = prev_cpu e"
  "board (snd (close_fds w e)) = board e" "prev_cpu (snd (close_fds w e)) = prev_cpu e"
  "board (snd (open_fds w e)) = board e"
  by (simp_all add: medium_sample_def slow_sample_def sync_def close_fds_def open_fds_def
        Let_def split_beta)

lemma cpu_inv_run_medium: "cpu_inv e \<Longrightarrow> cpu_inv (run_medium pl inp e)"
  by (simp add: cpu_inv_def run_medium_def tier_frame medium_sample_fields
        split: option.splits tier_pc.splits)

lemma cpu_inv_run_slow: "cpu_inv e \<Longrightarrow> cpu_inv (run_slow pl inp e)"
  by (simp add: cpu_inv_def run_slow_def tier_frame slow_sample_fields
        split: option.splits tier_pc.splits)

lemma cpu_inv_stop_step: "cpu_inv (eng s) \<Longrightarrow> cpu_inv (eng (stop_step s))"
proof (cases "ctl s")
  case CloseFds
  assume "cpu_inv (eng s)"
  then show ?thesis using CloseFds
    by (simp add: stop_step_CloseFds cpu_inv_def tier_frame close_fds_fields)
qed (auto simp: cpu_inv_def stop_step_def split: option.splits sum.splits)

lemma cpu_inv_start:
  assumes "cpu_inv e" and "start t w e = Inr (w', e')"
  shows "cpu_inv e'"
proof -
  define e1 where "e1 = e\<lparr>running := True, warmed_up := False, fast_count := 0,
                   fast_samples := [], medium_samples := [], slow_samples := [],
                   sync_points := []\<rparr>"
  have e': "e' = (snd (open_fds w e1))\<lparr>prev_cpu := replicate (nat (num_cpu_cores (board e))) \<lparr>total = 0, idle = 0\<rparr>,
                     t0_s := t,
                     fast_thread := Some (FPrimer 0),
                     medium_thread := Some TWait,
                     slow_thread := Some TWait\<rparr>"
    using assms(2) unfolding start_def e1_def
    by (auto simp: Let_def split: if_splits prod.splits)
  show ?thesis
    using assms(1) unfolding e' by (simp add: cpu_inv_def tier_frame e1_def)
qed

lemma cpu_inv_step: "cpu_inv (eng s) \<Longrightarrow> cpu_inv (eng (step pl ev s))"
proof (cases ev)
  case (CallStart t)
  assume i: "cpu_inv (eng s)"
  show ?thesis
  proof (cases "start t (wld s) (eng s)")
    case (Inl err)
    then show ?thesis using CallStart i by simp
  next
    case (Inr r)
    obtain w' e' where r: "r = (w', e')" by (cases r)
    have "cpu_inv e'" using i Inr unfolding r by (rule cpu_inv_start)
    then show ?thesis using CallStart Inr r i by simp
  qed
qed (simp_all add: cpu_inv_run_fast cpu_inv_run_medium cpu_inv_run_slow cpu_inv_stop_step,
     simp_all add: cpu_inv_def tier_frame sync_frame)

lemma cpu_inv_exec: "cpu_inv (eng s) \<Longrightarrow> cpu_inv (eng (exec pl evs s))"
  unfolding exec_def by (induction evs arbitrary: s) (simp_all add: cpu_inv_step)

lemma boot_cores: "boot w path b c = Some s \<Longrightarrow> num_cpu_cores b \<le> 16"
  by (auto simp: boot_def Engine_new_def MAX_CPU_CORES_def split: if_splits)

lemma cpu_inv_reachable:
  assumes "boot w path b c = Some s0"
  shows "cpu_inv (eng (exec pl evs s0))"
proof -
  have "eng s0 = Engine_init path b c" using boot_eng [OF assms] by simp
  then have "cpu_inv (eng s0)"
    using boot_cores [OF assms] by (simp add: cpu_inv_def Engine_init_def)
  then show ?thesis by (rule cpu_inv_exec)
qed

lemma split_lines_line:
  "NL \<notin> set a \<Longrightarrow> split_lines (a @ [NL] @ r) = a # split_lines r"
  by (simp add: split_lines_append)

lemma stat_text_lines:
  "split_lines stat_text
     = [''cpu  11 2 2 33 4 0 0 0 0 0'', ''cpu0 5 1 2 30 4 0 0 0 0 0'',
        ''cpu1 6 1 0 3 0 0 0 0 0 0'', ''intr 5'', []]"
proof -
  have 1: "split_lines (''intr 5'' @ [NL] @ []) = [''intr 5'', []]"
    by (subst split_lines_line) (simp_all add: NL_def)
  have 2: "split_lines (''cpu1 6 1 0 3 0 0 0 0 0 0'' @ [NL] @ ''intr 5'' @ [NL] @ [])
             = ''cpu1 6 1 0 3 0 0 0 0 0 0'' # split_lines (''intr 5'' @ [NL] @ [])"
    by (rule split_lines_line) (simp add: NL_def)
  have 3: "split_lines (''cpu0 5 1 2 30 4 0 0 0 0 0'' @ [NL] @ ''cpu1 6 1 0 3 0 0 0 0 0 0'' @ [NL]
               @ ''intr 5'' @ [NL] @ [])
             = ''cpu0 5 1 2 30 4 0 0 0 0 0''
               # split_lines (''cpu1 6 1 0 3 0 0 0 0 0 0'' @ [NL] @ ''intr 5'' @ [NL] @ [])"
    by (rule split_lines_line) (simp add: NL_def)
  have 4: "split_lines (''cpu  11 2 2 33 4 0 0 0 0 0'' @ [NL] @ ''cpu0 5 1 2 30 4 0 0 0 0 0'' @ [NL]
               @ ''cpu1 6 1 0 3 0 0 0 0 0 0'' @ [NL] @ ''intr 5'' @ [NL] @ [])
             = ''cpu  11 2 2 33 4 0 0 0 0 0''
               # split_lines (''cpu0 5 1 2 30 4 0 0 0 0 0'' @ [NL] @ ''cpu1 6 1 0 3 0 0 0 0 0 0''
                   @ [NL] @ ''intr 5'' @ [NL] @ [])"
    by (rule split_lines_line) (simp add: NL_def)
  have st: "stat_text = ''cpu  11 2 2 33 4 0 0 0 0 0'' @ [NL] @ ''cpu0 5 1 2 30 4 0 0 0 0 0'' @ [NL]
               @ ''cpu1 6 1 0 3 0 0 0 0 0 0'' @ [NL] @ ''intr 5'' @ [NL] @ []"
    by (simp add: stat_text_def)
  show ?thesis unfolding st 4 3 2 1 by (rule refl)
qed

lemma stat_text_read: "sysfs_read 4 4096 stat_text = Some stat_text"
  by (simp add: sysfs_read_def stat_text_def NL_def NUL_def Let_def)

lemma stat_text_cpu_lines:
  "stat_lines 4 2 stat_text = [''cpu0 5 1 2 30 4 0 0 0 0 0'', ''cpu1 6 1 0 3 0 0 0 0 0 0'']"
  by (simp add: stat_lines_def stat_text_read stat_text_lines starts_cpu_def)

lemma clamp_f_clamped:
  "\<not> f_less pl lo lo \<Longrightarrow> \<not> f_less pl hi hi \<Longrightarrow> \<not> f_less pl hi lo \<Longrightarrow>
     clamped_to pl lo hi v (clamp_f pl v lo hi)"
  by (simp add: clamped_to_def clamp_f_def)

text \<open>
  Claim C3. On a fast tick of a started engine (any state \<open>e\<close> the engine reaches
  in which the fast thread exists), let \<open>ls\<close> be the core lines the reader parses
  from the \<open>/proc/stat\<close> buffer: the lines after the first, at most
  \<open>num_cpu_cores\<close> of them, up to the first that does not begin with \<open>cpu\<close>. Then
  for every \<open>c < length ls\<close> the utilisation recorded in slot \<open>c\<close> of the sample is
  the value \<open>100 * (d_total - d_idle) / d_total\<close> when \<open>d_total > 0\<close> and \<open>0.0\<close>
  otherwise, clamped to \<open>[0, 100]\<close>: it is \<open>0.0\<close> when the value is below \<open>0.0\<close>,
  \<open>100.0\<close> when it is above \<open>100.0\<close>, the value itself otherwise, and it is neither
  below \<open>0.0\<close> nor above \<open>100.0\<close>, as is every one of the sixteen slots. Here
  \<open>total\<close> is the sum of the first 8 fields of line \<open>c\<close>, \<open>idle_sum\<close> is field 3 plus
  field 4 (idle and iowait), \<open>d_total\<close> and \<open>d_idle\<close> are the differences to the
  stored previous values of slot \<open>c\<close>, and the stored values of slot \<open>c\<close> become
  \<open>(total, idle_sum)\<close>; the slots from \<open>length ls\<close> to 15 are \<open>0.0\<close>, the stored
  values of the cores not parsed stay, and \<open>cpu_aggregate\<close> is the sum of the
  parsed slots divided by their number (\<open>0.0\<close> if there is none). The sums and
  differences are those of \<open>uint64_t\<close> (they wrap), the float operations are those
  of the platform, whatever they are, and slot \<open>c\<close> is fed by the \<open>c\<close>-th core line
  whatever core number it carries. Of the platform's comparison the theorem
  assumes that \<open>0.0 < 0.0\<close>, \<open>100.0 < 100.0\<close> and \<open>100.0 < 0.0\<close> are false. The last
  conjunct reads the fields of a line in the kernel's format: \<open>cpu\<close>, digits, a
  blank, and ten decimal numbers separated by single blanks.
\<close>

theorem fast_tick_cpu_utilisation:
  assumes "boot w path b c = Some s0" and "e = eng (exec pl evs s0)" and "fast_thread e \<noteq> None"
    and "ls = stat_lines (fd_proc_stat e) (num_cpu_cores (board e)) (rd inp (fd_proc_stat e))"
    and "e' = fast_sample pl inp e" and "s = last (fast_samples e')"
    and "\<not> f_less pl F_0 F_0" and "\<not> f_less pl F_100 F_100" and "\<not> f_less pl F_100 F_0"
  shows "(cpu_util s, cpu_aggregate s, prev_cpu e')
           = read_cpu_spec pl (fd_proc_stat e) (num_cpu_cores (board e)) (rd inp (fd_proc_stat e))
               (prev_cpu e)
       \<and> length ls \<le> nat (num_cpu_cores (board e)) \<and> length (cpu_util s) = 16
       \<and> (\<forall>c < length ls.
             clamped_to pl F_0 F_100
               (if total (line_jiffies (ls ! c)) - total (prev_cpu e ! c) > 0
                then f_div pl
                       (f_mul pl F_100
                          (f_of_u64 pl ((total (line_jiffies (ls ! c)) - total (prev_cpu e ! c))
                                        - (idle (line_jiffies (ls ! c)) - idle (prev_cpu e ! c)))))
                       (f_of_u64 pl (total (line_jiffies (ls ! c)) - total (prev_cpu e ! c)))
                else F_0)
               (cpu_util s ! c)
           \<and> total (line_jiffies (ls ! c)) = sum_list (take 8 (line_fields (ls ! c)))
           \<and> idle (line_jiffies (ls ! c)) = line_fields (ls ! c) ! 3 + line_fields (ls ! c) ! 4
           \<and> prev_cpu e' ! c = line_jiffies (ls ! c))
       \<and> (\<forall>c. length ls \<le> c \<and> c < 16 \<longrightarrow> cpu_util s ! c = F_0)
       \<and> (\<forall>c < 16. \<not> f_less pl (cpu_util s ! c) F_0 \<and> \<not> f_less pl F_100 (cpu_util s ! c))
       \<and> (\<forall>c. length ls \<le> c \<and> c < length (prev_cpu e) \<longrightarrow> prev_cpu e' ! c = prev_cpu e ! c)
       \<and> cpu_aggregate s
           = (if length ls > 0
              then f_div pl (foldl (f_add pl) F_0 (take (length ls) (cpu_util s)))
                     (f_of_int pl (int (length ls)))
              else F_0)
       \<and> (\<forall>nm ts. (\<forall>d \<in> set nm. is_digit d) \<and> (\<forall>t \<in> set ts. number t) \<and> length ts = 10 \<longrightarrow>
             line_fields (''cpu'' @ nm @ CHR '' '' # fields_text ts) = map dec_value ts)"
proof -
  let ?n = "num_cpu_cores (board e)"
  let ?k = "length ls"
  let ?utils = "map2 (core_util pl) (map line_jiffies ls) (prev_cpu e)"
  have inv: "cpu_inv e" unfolding assms(2) using assms(1) by (rule cpu_inv_reachable)
  then have l: "length (prev_cpu e) = nat ?n" and n: "?n \<le> 16"
    using assms(3) by (simp_all add: cpu_inv_def)
  have k: "?k \<le> nat ?n" unfolding assms(4) by (rule stat_lines_length)
  then have kp: "?k \<le> length (prev_cpu e)" and k16: "?k \<le> 16" using l n by simp_all
  have rc: "read_cpu pl (fd_proc_stat e) ?n (rd inp (fd_proc_stat e)) (replicate 16 0) (prev_cpu e)
              = read_cpu_spec pl (fd_proc_stat e) ?n (rd inp (fd_proc_stat e)) (prev_cpu e)"
    using read_cpu_eq_spec [OF l n] by (simp add: F_0_def)
  have sp: "read_cpu_spec pl (fd_proc_stat e) ?n (rd inp (fd_proc_stat e)) (prev_cpu e)
              = (?utils @ replicate (16 - ?k) F_0,
                 (if ?k > 0 then f_div pl (foldl (f_add pl) F_0 ?utils) (f_of_int pl (int ?k)) else F_0),
                 map line_jiffies ls @ drop ?k (prev_cpu e))"
    by (simp add: read_cpu_spec_def Let_def assms(4))
  have u: "cpu_util s = ?utils @ replicate (16 - ?k) F_0"
    and g: "cpu_aggregate s
              = (if ?k > 0 then f_div pl (foldl (f_add pl) F_0 ?utils) (f_of_int pl (int ?k)) else F_0)"
    and p: "prev_cpu e' = map line_jiffies ls @ drop ?k (prev_cpu e)"
    unfolding assms(5,6) by (simp_all add: fast_sample_cpu rc sp)
  have lu: "length ?utils = ?k" using kp by simp
  have c1: "(cpu_util s, cpu_aggregate s, prev_cpu e')
           = read_cpu_spec pl (fd_proc_stat e) ?n (rd inp (fd_proc_stat e)) (prev_cpu e)"
    unfolding sp u g p by simp
  have c2: "length (cpu_util s) = 16" unfolding u using lu k16 by simp
  have c3: "cpu_util s ! c = core_util pl (line_jiffies (ls ! c)) (prev_cpu e ! c)
            \<and> prev_cpu e' ! c = line_jiffies (ls ! c)" if "c < ?k" for c
    unfolding u p using that kp lu by (simp add: nth_append)
  have c4: "cpu_util s ! c = F_0" if "?k \<le> c" and "c < 16" for c
    unfolding u using that lu by (simp add: nth_append)
  have c5: "prev_cpu e' ! c = prev_cpu e ! c" if "?k \<le> c" and "c < length (prev_cpu e)" for c
    unfolding p using that by (simp add: nth_append)
  have tk: "take ?k (cpu_util s) = ?utils" unfolding u using lu by simp
  have c6: "cpu_aggregate s
           = (if ?k > 0
              then f_div pl (foldl (f_add pl) F_0 (take ?k (cpu_util s))) (f_of_int pl (int ?k))
              else F_0)"
    unfolding tk by (rule g)
  have c7: "line_fields (''cpu'' @ nm @ CHR '' '' # fields_text ts) = map dec_value ts"
    if "\<forall>d \<in> set nm. is_digit d" and "\<forall>t \<in> set ts. number t" and "length ts = 10" for nm ts
    using that by (rule line_fields_kernel)
  have c8: "clamped_to pl F_0 F_100
               (if total (line_jiffies (ls ! c)) - total (prev_cpu e ! c) > 0
                then f_div pl
                       (f_mul pl F_100
                          (f_of_u64 pl ((total (line_jiffies (ls ! c)) - total (prev_cpu e ! c))
                                        - (idle (line_jiffies (ls ! c)) - idle (prev_cpu e ! c)))))
                       (f_of_u64 pl (total (line_jiffies (ls ! c)) - total (prev_cpu e ! c)))
                else F_0)
               (cpu_util s ! c)" if "c < ?k" for c
    using c3 [OF that] clamp_f_clamped [OF assms(7-9)] by (simp add: core_util_def)
  have c9: "\<not> f_less pl (cpu_util s ! c) F_0 \<and> \<not> f_less pl F_100 (cpu_util s ! c)" if "c < 16" for c
  proof (cases "c < ?k")
    case True
    then show ?thesis using c8 [OF True] by (simp add: clamped_to_def)
  next
    case False
    then show ?thesis using c4 [of c] that assms(7,9) by simp
  qed
  have c10: "total (line_jiffies (ls ! c)) = sum_list (take 8 (line_fields (ls ! c)))
           \<and> idle (line_jiffies (ls ! c)) = line_fields (ls ! c) ! 3 + line_fields (ls ! c) ! 4" for c
    by (simp add: line_jiffies_def)
  show ?thesis
    using c1 k c2 c3 c4 c5 c6 c7 c8 c9 c10 by simp
qed

theorem fast_tick_cpu_utilisation_witness:
  "boot demo_world ''/tmp/trace.bin'' demo_board default_EngineConfig = Some demo_sys
   \<and> fast_thread (eng started) = Some (FPrimer 0)
   \<and> fd_proc_stat (eng started) = 4
   \<and> stat_lines (fd_proc_stat (eng started)) (num_cpu_cores (board (eng started)))
        (rd stat_tick (fd_proc_stat (eng started)))
       = [''cpu0 5 1 2 30 4 0 0 0 0 0'', ''cpu1 6 1 0 3 0 0 0 0 0 0'']
   \<and> line_fields ''cpu0 5 1 2 30 4 0 0 0 0 0'' = [5, 1, 2, 30, 4, 0, 0, 0, 0, 0]
   \<and> prev_cpu (eng started) = [\<lparr>total = 0, idle = 0\<rparr>, \<lparr>total = 0, idle = 0\<rparr>]
   \<and> prev_cpu (fast_sample demo_platform stat_tick (eng started)) ! 0 = \<lparr>total = 42, idle = 34\<rparr>
   \<and> prev_cpu (fast_sample demo_platform stat_tick (eng started)) ! 1 = \<lparr>total = 10, idle = 3\<rparr>
   \<and> \<not> f_less demo_platform F_0 F_0 \<and> \<not> f_less demo_platform F_100 F_100
   \<and> \<not> f_less demo_platform F_100 F_0
   \<and> cpu_util (last (fast_samples (fast_sample demo_platform stat_tick (eng started)))) ! 0
       = f_div demo_platform (f_mul demo_platform F_100 (f_of_u64 demo_platform (42 - 34)))
           (f_of_u64 demo_platform 42)
   \<and> \<not> f_less demo_platform
         (cpu_util (last (fast_samples (fast_sample demo_platform stat_tick (eng started)))) ! 0) F_0
   \<and> \<not> f_less demo_platform F_100
         (cpu_util (last (fast_samples (fast_sample demo_platform stat_tick (eng started)))) ! 0)
   \<and> cpu_util (last (fast_samples (fast_sample demo_platform stat_tick (eng started)))) ! 2 = F_0
   \<and> length (cpu_util (last (fast_samples (fast_sample demo_platform stat_tick (eng started))))) = 16"
proof -
  let ?e = "eng started"
  let ?e' = "fast_sample demo_platform stat_tick ?e"
  have b: "boot demo_world ''/tmp/trace.bin'' demo_board default_EngineConfig = Some demo_sys"
    by (simp add: boot_def Engine_new_def demo_sys_def demo_board_def size_as_int_def
          MAX_CPU_CORES_def MAX_POWER_RAILS_def MAX_THERMAL_ZONES_def)
  have f: "fast_thread ?e = Some (FPrimer 0)" by code_simp
  have f': "fast_thread ?e \<noteq> None" using f by simp
  have d: "fd_proc_stat ?e = 4" by code_simp
  have n: "num_cpu_cores (board ?e) = 2" by code_simp
  have r: "rd stat_tick 4 = stat_text" by (simp add: stat_tick_def)
  have ls: "stat_lines (fd_proc_stat ?e) (num_cpu_cores (board ?e)) (rd stat_tick (fd_proc_stat ?e))
              = [''cpu0 5 1 2 30 4 0 0 0 0 0'', ''cpu1 6 1 0 3 0 0 0 0 0 0'']"
    unfolding d n r by (rule stat_text_cpu_lines)
  have lf: "line_fields ''cpu0 5 1 2 30 4 0 0 0 0 0'' = [5, 1, 2, 30, 4, 0, 0, 0, 0, 0]"
    by code_simp
  have lj: "line_jiffies ''cpu0 5 1 2 30 4 0 0 0 0 0'' = \<lparr>total = 42, idle = 34\<rparr>"
    "line_jiffies ''cpu1 6 1 0 3 0 0 0 0 0 0'' = \<lparr>total = 10, idle = 3\<rparr>"
    by code_simp+
  have p0: "prev_cpu ?e = [\<lparr>total = 0, idle = 0\<rparr>, \<lparr>total = 0, idle = 0\<rparr>]" by code_simp
  have se: "?e = eng (exec demo_platform [CallStart 0] demo_sys)" by (simp only: started_def)
  have o: "\<not> f_less demo_platform F_0 F_0" "\<not> f_less demo_platform F_100 F_100"
    "\<not> f_less demo_platform F_100 F_0"
    by (simp_all add: demo_platform_def F_0_def F_100_def)
  note t = fast_tick_cpu_utilisation [OF b se f' ls [symmetric] refl refl o]
  note per_core = t [THEN conjunct2, THEN conjunct2, THEN conjunct2, THEN conjunct1, rule_format]
  let ?v = "f_div demo_platform (f_mul demo_platform F_100 (f_of_u64 demo_platform (42 - 34)))
              (f_of_u64 demo_platform 42)"
  have v: "\<not> f_less demo_platform ?v F_0" "\<not> f_less demo_platform F_100 ?v" by code_simp+
  have cl: "clamped_to demo_platform F_0 F_100 ?v (cpu_util (last (fast_samples ?e')) ! 0)"
    using per_core [of 0] by (simp add: lj p0)
  have u0: "cpu_util (last (fast_samples ?e')) ! 0 = ?v"
    using cl v unfolding clamped_to_def by blast
  have r0: "\<not> f_less demo_platform (cpu_util (last (fast_samples ?e')) ! 0) F_0"
    "\<not> f_less demo_platform F_100 (cpu_util (last (fast_samples ?e')) ! 0)"
    using cl unfolding clamped_to_def by blast+
  have q0: "prev_cpu ?e' ! 0 = \<lparr>total = 42, idle = 34\<rparr>"
    using per_core [of 0] by (simp add: lj)
  have q1: "prev_cpu ?e' ! 1 = \<lparr>total = 10, idle = 3\<rparr>"
    using per_core [of 1] by (simp add: lj)
  have u2: "cpu_util (last (fast_samples ?e')) ! 2 = F_0"
    using t [THEN conjunct2, THEN conjunct2, THEN conjunct2, THEN conjunct2, THEN conjunct1,
             rule_format, of 2]
    by simp
  have l16: "length (cpu_util (last (fast_samples ?e'))) = 16"
    using t by simp
  show ?thesis
    using b f d ls lf p0 q0 q1 o u0 r0 u2 l16 by simp
qed

subsection \<open>Timestamps of the fast tier\<close>

lemma fast_sample_stamp:
  "t0_s (fast_sample pl inp e) = t0_s e"
  "map time_s (fast_samples (fast_sample pl inp e))
     = map time_s (fast_samples e) @ [d_sub pl (now inp) (t0_s e)]"
  by (simp_all add: fast_sample_def split: prod.splits)

lemma stamps_run_fast:
  assumes "stamps_of pl ns e"
  shows "stamps_of pl ns (run_fast pl inp e) \<or> stamps_of pl (ns @ [now inp]) (run_fast pl inp e)"
  using assms
  by (auto simp: stamps_of_def run_fast_def fast_sample_stamp split: option.splits fast_pc.splits)

lemma stamps_frame:
  "stamps_of pl ns e \<Longrightarrow> fast_samples e' = fast_samples e \<Longrightarrow> t0_s e' = t0_s e \<Longrightarrow>
     stamps_of pl ns e'"
  by (simp add: stamps_of_def)

lemma tier_stamp:
  "fast_samples (run_medium pl inp e) = fast_samples e" "t0_s (run_medium pl inp e) = t0_s e"
  "fast_samples (run_slow pl inp e) = fast_samples e" "t0_s (run_slow pl inp e) = t0_s e"
  "fast_samples (snd (sync e)) = fast_samples e" "t0_s (snd (sync e)) = t0_s e"
  by (simp_all add: run_medium_def run_slow_def medium_sample_def slow_sample_def sync_def Let_def
        split: option.splits tier_pc.splits)

lemma close_fds_t0: "t0_s (snd (close_fds w e)) = t0_s e"
  by (simp add: close_fds_def split: prod.splits)

lemma stop_step_stamp:
  "fast_samples (eng (stop_step s)) = fast_samples (eng s)" "t0_s (eng (stop_step s)) = t0_s (eng s)"
proof -
  show "fast_samples (eng (stop_step s)) = fast_samples (eng s)" by (simp add: stop_step_frame)
  show "t0_s (eng (stop_step s)) = t0_s (eng s)"
  proof (cases "ctl s")
    case CloseFds
    then show ?thesis by (simp add: stop_step_CloseFds close_fds_t0)
  qed (simp_all add: stop_step_def split: option.splits sum.splits prod.splits)
qed

lemma stamps_step:
  assumes "stamps_of pl ns (eng s)"
  shows "stamps_of pl ns (eng (step pl ev s)) \<or> stamps_of pl [] (eng (step pl ev s))
       \<or> (\<exists>inp. ev = Fast inp \<and> stamps_of pl (ns @ [now inp]) (eng (step pl ev s)))"
proof (cases ev)
  case (CallStart t)
  show ?thesis
  proof (cases "in_stop (ctl s)")
    case True
    then show ?thesis using CallStart assms by simp
  next
    case False
    show ?thesis
    proof (cases "start t (wld s) (eng s)")
      case (Inl err)
      then show ?thesis using CallStart False assms by simp
    next
      case (Inr r)
      obtain w' e' where r: "r = (w', e')" by (cases r)
      have "stamps_of pl [] e'"
        using start_fields(4) [OF Inr [unfolded r]] by (simp add: stamps_of_def)
      then show ?thesis using CallStart False Inr r by simp
    qed
  qed
next
  case CallStop
  then show ?thesis using assms by (simp add: stamps_of_def)
next
  case Ctl
  then show ?thesis using stamps_frame [OF assms stop_step_stamp] by simp
next
  case CallSync
  then show ?thesis using stamps_frame [OF assms tier_stamp(5,6)] by simp
next
  case (Fast inp)
  then show ?thesis using stamps_run_fast [OF assms, of inp] by auto
next
  case (Medium inp)
  then show ?thesis using stamps_frame [OF assms tier_stamp(1,2)] by simp
next
  case (Slow inp)
  then show ?thesis using stamps_frame [OF assms tier_stamp(3,4)] by simp
qed

lemma exec_snoc: "exec pl (evs @ [ev]) s = step pl ev (exec pl evs s)"
  by (simp add: exec_def)

lemma fast_nows_snoc: "fast_nows (evs @ [ev]) = fast_nows evs @ fast_now ev"
  by (simp add: fast_nows_def)

lemma stamps_exec:
  assumes "stamps_of pl [] (eng s0)" and "sorted_wrt lt (fast_nows evs)"
  shows "\<exists>ns. stamps_of pl ns (eng (exec pl evs s0)) \<and> set ns \<subseteq> set (fast_nows evs)
              \<and> sorted_wrt lt ns"
  using assms(2)
proof (induction evs rule: rev_induct)
  case Nil
  then show ?case using assms(1) by (auto simp: exec_def intro: exI [of _ "[]"])
next
  case (snoc ev evs)
  from snoc.prems have srt: "sorted_wrt lt (fast_nows evs)"
    and lst: "\<forall>a \<in> set (fast_nows evs). \<forall>b \<in> set (fast_now ev). lt a b"
    by (simp_all add: fast_nows_snoc sorted_wrt_append)
  from snoc.IH [OF srt] obtain ns where ns: "stamps_of pl ns (eng (exec pl evs s0))"
    "set ns \<subseteq> set (fast_nows evs)" "sorted_wrt lt ns" by blast
  let ?s = "exec pl evs s0"
  consider "stamps_of pl ns (eng (step pl ev ?s))" | "stamps_of pl [] (eng (step pl ev ?s))"
    | inp where "ev = Fast inp" "stamps_of pl (ns @ [now inp]) (eng (step pl ev ?s))"
    using stamps_step [OF ns(1), of ev] by blast
  then show ?case
  proof cases
    case 1
    then show ?thesis using ns(2,3) by (auto simp: exec_snoc fast_nows_snoc)
  next
    case 2
    then have "stamps_of pl [] (eng (exec pl (evs @ [ev]) s0)) \<and> set [] \<subseteq> set (fast_nows (evs @ [ev]))
        \<and> sorted_wrt lt []" by (simp add: exec_snoc)
    then show ?thesis by blast
  next
    case 3
    have "sorted_wrt lt (ns @ [now inp])"
      using ns(2,3) lst 3(1) by (auto simp: sorted_wrt_append)
    moreover have "set (ns @ [now inp]) \<subseteq> set (fast_nows (evs @ [ev]))"
      using ns(2) 3(1) by (auto simp: fast_nows_snoc)
    ultimately have "stamps_of pl (ns @ [now inp]) (eng (exec pl (evs @ [ev]) s0))
        \<and> set (ns @ [now inp]) \<subseteq> set (fast_nows (evs @ [ev])) \<and> sorted_wrt lt (ns @ [now inp])"
      using 3(2) by (simp add: exec_snoc)
    then show ?thesis by blast
  qed
qed

text \<open>
  Claim C9. Within a single run the timestamps recorded in the fast buffer are
  strictly increasing. A timestamp is the clock reading of its iteration minus
  \<open>t0_s_\<close>; \<open>start\<close> clears the buffer and sets \<open>t0_s_\<close> once for the run, and the
  samples are appended in the order the clock is read. So, in every state \<open>e\<close> the
  engine reaches, each timestamp in the buffer is one of the clock readings minus
  the \<open>t0_s_\<close> of the run, and the timestamps increase strictly in an order \<open>lt\<close>
  whenever the clock readings of the successive steps of the fast thread do and
  the subtraction of \<open>t0_s_\<close> keeps the order of these readings. The two
  conditions are about \<open>CLOCK_MONOTONIC\<close>, read as a \<open>double\<close>, and about the
  subtraction of doubles.
\<close>

theorem fast_timestamps_increasing:
  assumes "boot w path b c = Some s0" and "e = eng (exec pl evs s0)"
    and "sorted_wrt lt (fast_nows evs)"
    and "\<forall>a \<in> set (fast_nows evs). \<forall>b \<in> set (fast_nows evs).
           lt a b \<longrightarrow> lt (d_sub pl a (t0_s e)) (d_sub pl b (t0_s e))"
  shows "(\<forall>i j. i < j \<and> j < length (fast_samples e) \<longrightarrow>
            lt (time_s (fast_samples e ! i)) (time_s (fast_samples e ! j)))
       \<and> (\<forall>s \<in> set (fast_samples e). \<exists>n \<in> set (fast_nows evs). time_s s = d_sub pl n (t0_s e))"
proof -
  have "stamps_of pl [] (eng s0)"
    using boot_eng [OF assms(1)] by (simp add: stamps_of_def Engine_init_def)
  from stamps_exec [OF this assms(3)] obtain ns where
    ns: "map time_s (fast_samples e) = map (\<lambda>n. d_sub pl n (t0_s e)) ns"
      "set ns \<subseteq> set (fast_nows evs)" "sorted_wrt lt ns"
    unfolding assms(2) stamps_of_def by blast
  have "sorted_wrt (\<lambda>a b. lt (d_sub pl a (t0_s e)) (d_sub pl b (t0_s e))) ns"
    using ns(3)
  proof (rule sorted_wrt_mono_rel [rotated])
    fix a b assume "a \<in> set ns" "b \<in> set ns" "lt a b"
    then show "lt (d_sub pl a (t0_s e)) (d_sub pl b (t0_s e))" using assms(4) ns(2) by blast
  qed
  then have "sorted_wrt lt (map time_s (fast_samples e))"
    by (simp add: ns(1) sorted_wrt_map)
  then have srt: "sorted_wrt (\<lambda>x y. lt (time_s x) (time_s y)) (fast_samples e)"
    by (simp add: sorted_wrt_map)
  have one: "lt (time_s (fast_samples e ! i)) (time_s (fast_samples e ! j))"
    if "i < j" "j < length (fast_samples e)" for i j
    using sorted_wrt_nth_less [OF srt that] .
  have two: "\<exists>n \<in> set (fast_nows evs). time_s s = d_sub pl n (t0_s e)"
    if "s \<in> set (fast_samples e)" for s
  proof -
    from that have "time_s s \<in> set (map time_s (fast_samples e))" by simp
    then have "time_s s \<in> set (map (\<lambda>n. d_sub pl n (t0_s e)) ns)" by (simp only: ns(1))
    then show ?thesis using ns(2) by auto
  qed
  show ?thesis using one two by blast
qed

theorem fast_timestamps_increasing_witness:
  "boot demo_world ''/tmp/trace.bin'' demo_board default_EngineConfig = Some demo_sys
   \<and> fast_nows clock_run = [7, 8, 9]
   \<and> t0_s (eng (exec demo_platform clock_run demo_sys)) = 5
   \<and> map time_s (fast_samples (eng (exec demo_platform clock_run demo_sys))) = [2, 3, 4]
   \<and> time_s (fast_samples (eng (exec demo_platform clock_run demo_sys)) ! 0)
       < time_s (fast_samples (eng (exec demo_platform clock_run demo_sys)) ! 2)"
proof -
  let ?e = "eng (exec demo_platform clock_run demo_sys)"
  have b: "boot demo_world ''/tmp/trace.bin'' demo_board default_EngineConfig = Some demo_sys"
    by (simp add: boot_def Engine_new_def demo_sys_def demo_board_def size_as_int_def
          MAX_CPU_CORES_def MAX_POWER_RAILS_def MAX_THERMAL_ZONES_def)
  have n: "fast_nows clock_run = [7, 8, 9]" by code_simp
  have t: "t0_s ?e = 5" by code_simp
  have m: "map time_s (fast_samples ?e) = [2, 3, 4]" by code_simp
  have l: "length (fast_samples ?e) = 3" using arg_cong [OF m, of length] by simp
  have s: "sorted_wrt (<) (fast_nows clock_run)" by (simp add: n)
  have d: "\<forall>a \<in> set (fast_nows clock_run). \<forall>b \<in> set (fast_nows clock_run).
             a < b \<longrightarrow> d_sub demo_platform a (t0_s ?e) < d_sub demo_platform b (t0_s ?e)"
  proof -
    have ds: "d_sub demo_platform = (-)" by (simp add: demo_platform_def)
    show ?thesis unfolding n t ds by simp
  qed
  have "time_s (fast_samples ?e ! 0) < time_s (fast_samples ?e ! 2)"
    using fast_timestamps_increasing [OF b refl s d] l by simp
  then show ?thesis using b n t m by simp
qed

end
